theory Spec2Isabelle
  imports Main "HOL-Library.Word"
begin

section \<open>Data of package cleanuphttp\<close>

text \<open>
  A \<^verbatim>\<open>Routine\<close> is a Go function value \<^verbatim>\<open>func(interface{})\<close>: \<open>None\<close> is the nil
  function, \<open>Some k\<close> the function value number \<open>k\<close>. An \<^verbatim>\<open>interface{}\<close> argument is
  nil or a boxed value. A Go result pair or triple that ends in an \<^verbatim>\<open>ok\<close> flag is kept
  as the tuple the source returns.
\<close>

type_synonym Routine = "nat option"

datatype iface = NilV | IntV int | StrV string

record cleanupRoutine =
  routine :: Routine
  arg :: iface

text \<open>
  \<^verbatim>\<open>routineStack\<close>: the mutex \<^verbatim>\<open>mu\<close> is held for the whole body of \<^verbatim>\<open>len\<close>,
  \<^verbatim>\<open>push\<close> and \<^verbatim>\<open>pop\<close>, so each of them is one atomic function on the slice.
\<close>

record routineStack =
  routines :: "cleanupRoutine list"

text \<open>
  \<^verbatim>\<open>CleanupHTTP\<close>. The field \<^verbatim>\<open>Server\<close> points to the external \<^verbatim>\<open>http.Server\<close>; its two
  operations (\<^verbatim>\<open>ListenAndServe\<close>, \<^verbatim>\<open>Shutdown\<close>) appear below as steps whose result the
  environment chooses, so the pointer itself is not part of the record.
\<close>

record CleanupHTTP =
  preRoutines :: routineStack
  postRoutines :: routineStack
  closing :: "32 word"
  interrupted :: bool

text \<open>The zero value of \<^verbatim>\<open>cleanupRoutine\<close> and of \<^verbatim>\<open>CleanupHTTP\<close> (the default instance).\<close>

definition zero_cleanupRoutine :: cleanupRoutine where
  "zero_cleanupRoutine = \<lparr>routine = None, arg = NilV\<rparr>"

definition defaultCleanupHTTP :: CleanupHTTP where
  "defaultCleanupHTTP =
     \<lparr>preRoutines = \<lparr>routines = []\<rparr>, postRoutines = \<lparr>routines = []\<rparr>,
      closing = 0, interrupted = False\<rparr>"

text \<open>The two stacks are passed by pointer (\<^verbatim>\<open>&c.preRoutines\<close>, \<^verbatim>\<open>&c.postRoutines\<close>).\<close>

datatype which = Pre | Post

fun stack_of :: "which \<Rightarrow> CleanupHTTP \<Rightarrow> routineStack" where
  "stack_of Pre c = preRoutines c"
| "stack_of Post c = postRoutines c"

fun with_stack :: "which \<Rightarrow> routineStack \<Rightarrow> CleanupHTTP \<Rightarrow> CleanupHTTP" where
  "with_stack Pre st c = c\<lparr>preRoutines := st\<rparr>"
| "with_stack Post st c = c\<lparr>postRoutines := st\<rparr>"

section \<open>routineStack\<close>

definition len :: "routineStack \<Rightarrow> int" where
  "len s = int (length (routines s))"

definition push :: "routineStack \<Rightarrow> cleanupRoutine \<Rightarrow> routineStack" where
  "push s r = s\<lparr>routines := routines s @ [r]\<rparr>"

text \<open>\<^verbatim>\<open>pop\<close> returns the element, the \<^verbatim>\<open>ok\<close> flag and the stack it leaves.\<close>

definition pop :: "routineStack \<Rightarrow> cleanupRoutine \<times> bool \<times> routineStack" where
  "pop s =
     (if length (routines s) = 0 then (zero_cleanupRoutine, False, s)
      else
        let index = length (routines s) - 1;
            r = routines s ! index
        in (r, True, s\<lparr>routines := take index (routines s)\<rparr>))"

section \<open>Log lines and the public push and pop\<close>

datatype error = ErrServerClosed | DeadlineExceeded | Other string

fun Error :: "error \<Rightarrow> string" where
  "Error ErrServerClosed = ''http: Server closed''"
| "Error DeadlineExceeded = ''context deadline exceeded''"
| "Error (Other m) = m"

definition isClosed :: "CleanupHTTP \<Rightarrow> bool" where
  "isClosed c = (closing c \<noteq> 0)"

text \<open>
  \<^verbatim>\<open>cleanupPush\<close> and \<^verbatim>\<open>cleanupPop\<close> as one call that nothing interrupts: the instance
  they leave and the lines they log. (The interleaving model below splits each call at
  the point between its \<^verbatim>\<open>isClosed\<close> test and its stack operation.)
\<close>

definition cleanupPush ::
    "CleanupHTTP \<Rightarrow> which \<Rightarrow> Routine \<Rightarrow> iface \<Rightarrow> CleanupHTTP \<times> string list" where
  "cleanupPush c w rt a =
     (if isClosed c then (c, [''Push failed: closed''])
      else
        let r = \<lparr>routine = rt, arg = a\<rparr>
        in (with_stack w (push (stack_of w c) r) c, []))"

definition cleanupPop ::
    "CleanupHTTP \<Rightarrow> which \<Rightarrow> (Routine \<times> iface \<times> bool) \<times> CleanupHTTP \<times> string list" where
  "cleanupPop c w =
     (if isClosed c then ((None, NilV, False), c, [''Pop failed: closed''])
      else
        case pop (stack_of w c) of
          (r, True, st) \<Rightarrow> ((routine r, arg r, True), with_stack w st c, [])
        | (r, False, st) \<Rightarrow> ((None, NilV, False), with_stack w st c, []))"

definition PreCleanupPush :: "CleanupHTTP \<Rightarrow> Routine \<Rightarrow> iface \<Rightarrow> CleanupHTTP \<times> string list" where
  "PreCleanupPush c rt a = cleanupPush c Pre rt a"

definition PreCleanupPop ::
    "CleanupHTTP \<Rightarrow> (Routine \<times> iface \<times> bool) \<times> CleanupHTTP \<times> string list" where
  "PreCleanupPop c = cleanupPop c Pre"

definition PostCleanupPush :: "CleanupHTTP \<Rightarrow> Routine \<Rightarrow> iface \<Rightarrow> CleanupHTTP \<times> string list" where
  "PostCleanupPush c rt a = cleanupPush c Post rt a"

definition PostCleanupPop ::
    "CleanupHTTP \<Rightarrow> (Routine \<times> iface \<times> bool) \<times> CleanupHTTP \<times> string list" where
  "PostCleanupPop c = cleanupPop c Post"

text \<open>
  \<^verbatim>\<open>cleanup\<close>, run with no other goroutine touching the stack: the loop pops until
  \<^verbatim>\<open>pop\<close> reports an empty stack and calls each routine it popped. What the routines
  do is not part of this package: \<open>returns k\<close> says whether the call number \<open>k\<close> of the
  drain returns; a call that does not return panics, and so does every call of a nil
  routine. A panic ends the loop at once, with the routine that was being called already
  off the stack. The result is the stack the loop leaves, the routines it popped in the
  order of popping, and whether it ended in a panic.
\<close>

function cleanup ::
    "(nat \<Rightarrow> bool) \<Rightarrow> nat \<Rightarrow> routineStack \<Rightarrow> routineStack \<times> cleanupRoutine list \<times> bool" where
  "cleanup returns k s =
     (case pop s of
        (r, True, s') \<Rightarrow>
          (case routine r of
             None \<Rightarrow> (s', [r], True)
           | Some f \<Rightarrow>
               if returns k
               then (case cleanup returns (Suc k) s' of (s'', rs, p) \<Rightarrow> (s'', r # rs, p))
               else (s', [r], True))
      | (r, False, s') \<Rightarrow> (s', [], False))"
  by pat_completeness auto
termination
  by (relation "measure (\<lambda>(returns, k, s). length (routines s))")
     (auto simp: pop_def Let_def split: if_splits)

declare cleanup.simps [simp del]

text \<open>
  The pops of that loop alone (lines 156, 157 and 162): pop until \<^verbatim>\<open>pop\<close> reports an
  empty stack; the result is what was popped, in the order of popping.
\<close>

function drain :: "routineStack \<Rightarrow> cleanupRoutine list" where
  "drain s =
     (case pop s of
        (r, True, s') \<Rightarrow> r # drain s'
      | (r, False, s') \<Rightarrow> [])"
  by pat_completeness auto
termination
  by (relation "measure (\<lambda>s. length (routines s))")
     (auto simp: pop_def Let_def split: if_splits)

declare drain.simps [simp del]


section \<open>Serve: goroutines, channels and atomic steps\<close>

text \<open>
  One call of \<^verbatim>\<open>Serve\<close> on an instance is a \<^emph>\<open>session\<close>: its \<^verbatim>\<open>quit\<close> channel, the
  calling goroutine (which waits on \<^verbatim>\<open>quit\<close> and then runs the rest of \<^verbatim>\<open>Serve\<close>), the
  goroutine that runs \<^verbatim>\<open>ListenAndServe\<close>, and the goroutine that runs \<^verbatim>\<open>handleSignal\<close>.
  All sessions of an instance share its \<^verbatim>\<open>CleanupHTTP\<close> value. A goroutine advances by
  atomic steps: one access to shared memory (an atomic load, a compare-and-swap, a
  \<^verbatim>\<open>push\<close> or \<^verbatim>\<open>pop\<close> under the mutex, a channel operation) or one external call. Every
  step of every goroutine is a function, and a schedule (a list of labels) says which
  goroutine moves next and what the environment answers.
\<close>

datatype signal = SIGINT | SIGTERM

fun signal_String :: "signal \<Rightarrow> string" where
  "signal_String SIGINT = ''interrupt''"
| "signal_String SIGTERM = ''terminated''"

datatype ctx = Background | WithTimeout "64 word"

text \<open>How a call of \<^verbatim>\<open>Server.Shutdown\<close> ends: it returns nil or an error, or it panics.\<close>

datatype outcome = Returns "error option" | Panics

datatype chan = Open | Closed

text \<open>
  What a run leaves behind, most recent first: the log lines, and a record of each
  compare-and-swap, channel close, drain pop, routine call and \<^verbatim>\<open>Shutdown\<close> call with
  the number of the session it belongs to.
\<close>

datatype event =
    Log string
  | Cas_won nat
  | Cas_lost nat
  | Quit_closed nat
  | Popped nat which cleanupRoutine
  | Invoked nat which cleanupRoutine
  | Shutdown_called nat ctx
  | Shutdown_done nat outcome
  | Cancelled nat
  | Panic nat string
  | Pop_result "Routine \<times> iface \<times> bool"

text \<open>Where the goroutine that called \<^verbatim>\<open>Serve\<close> stands (lines 51 to 73 and 155 to 165).\<close>

datatype main_pc =
    At_wait
  | Cleanup_pop which
  | Cleanup_call which cleanupRoutine
  | At_defer
  | At_ctx
  | At_shutdown ctx
  | In_shutdown
  | Returning
  | Done
  | Crashed

datatype deferred = Deferred_postCleanup | Deferred_cancel

text \<open>Where the goroutine of lines 41 to 49 stands.\<close>

datatype server_pc = Serving | Server_cas | Server_close | Server_done | Server_crashed

text \<open>Where \<^verbatim>\<open>handleSignal\<close> stands in its loop (lines 130 to 144).\<close>

datatype handler_pc =
    Receiving
  | Check_interrupted
  | Set_interrupted
  | Load_closing
  | Handler_cas
  | Handler_close
  | Handler_crashed

record session =
  quit :: chan
  timeout :: "64 word"
  main :: main_pc
  defers :: "deferred list"
  panicking :: bool
  server :: server_pc
  handler :: handler_pc

text \<open>
  \<^verbatim>\<open>Serve(timeout)\<close> up to its wait: it makes \<^verbatim>\<open>quit\<close> and starts the two goroutines.
  The package-level \<^verbatim>\<open>Serve(server, timeout)\<close> is this call on the default instance.
\<close>

definition Serve :: "64 word \<Rightarrow> session" where
  "Serve t =
     \<lparr>quit = Open, timeout = t, main = At_wait, defers = [], panicking = False,
      server = Serving, handler = Receiving\<rparr>"

text \<open>\<^verbatim>\<open>atomic.CompareAndSwapInt32(&c.closing, old, new)\<close>.\<close>

definition CompareAndSwapInt32 ::
    "CleanupHTTP \<Rightarrow> 32 word \<Rightarrow> 32 word \<Rightarrow> CleanupHTTP \<times> bool" where
  "CompareAndSwapInt32 c old new =
     (if closing c = old then (c\<lparr>closing := new\<rparr>, True) else (c, False))"

text \<open>
  A step of a goroutine of session \<open>sid\<close> maps the instance and the session to the new
  instance, the new session and the events of the step (most recent first); \<open>None\<close>
  means the goroutine cannot move (it is blocked, waits for an external call to end, or
  has ended).
\<close>

type_synonym local = "CleanupHTTP \<times> session \<times> event list"

text \<open>
  The rest of \<^verbatim>\<open>Serve\<close>. \<^verbatim>\<open>preCleanup\<close> and \<^verbatim>\<open>postCleanup\<close> are \<^verbatim>\<open>cleanup\<close> on the
  respective stack; the call of a nil routine panics. A panic makes the function
  return through its deferred calls and leaves the goroutine \<open>Crashed\<close>.
\<close>

definition Serve_next :: "nat \<Rightarrow> CleanupHTTP \<Rightarrow> session \<Rightarrow> local option" where
  "Serve_next sid c ss =
     (case main ss of
        At_wait \<Rightarrow>
          (case quit ss of
             Closed \<Rightarrow> Some (c, ss\<lparr>main := Cleanup_pop Pre\<rparr>, [])
           | Open \<Rightarrow> None)
      | Cleanup_pop w \<Rightarrow>
          (case pop (stack_of w c) of
             (r, True, st) \<Rightarrow>
               Some (with_stack w st c, ss\<lparr>main := Cleanup_call w r\<rparr>, [Popped sid w r])
           | (r, False, st) \<Rightarrow>
               Some (with_stack w st c,
                     ss\<lparr>main := (case w of Pre \<Rightarrow> At_defer | Post \<Rightarrow> Returning)\<rparr>, []))
      | Cleanup_call w r \<Rightarrow>
          (case routine r of
             None \<Rightarrow>
               Some (c, ss\<lparr>main := Returning, panicking := True\<rparr>,
                     [Panic sid ''call of nil func''])
           | Some f \<Rightarrow> Some (c, ss\<lparr>main := Cleanup_pop w\<rparr>, [Invoked sid w r]))
      | At_defer \<Rightarrow>
          Some (c, ss\<lparr>defers := Deferred_postCleanup # defers ss, main := At_ctx\<rparr>, [])
      | At_ctx \<Rightarrow>
          (if 0 < sint (timeout ss)
           then Some (c, ss\<lparr>defers := Deferred_cancel # defers ss,
                              main := At_shutdown (WithTimeout (timeout ss))\<rparr>, [])
           else Some (c, ss\<lparr>main := At_shutdown Background\<rparr>, []))
      | At_shutdown cx \<Rightarrow> Some (c, ss\<lparr>main := In_shutdown\<rparr>, [Shutdown_called sid cx])
      | In_shutdown \<Rightarrow> None
      | Returning \<Rightarrow>
          (case defers ss of
             [] \<Rightarrow> Some (c, ss\<lparr>main := (if panicking ss then Crashed else Done)\<rparr>, [])
           | Deferred_cancel # ds \<Rightarrow> Some (c, ss\<lparr>defers := ds\<rparr>, [Cancelled sid])
           | Deferred_postCleanup # ds \<Rightarrow>
               Some (c, ss\<lparr>defers := ds, main := Cleanup_pop Post\<rparr>, []))
      | Done \<Rightarrow> None
      | Crashed \<Rightarrow> None)"

text \<open>The routine that \<^verbatim>\<open>cleanup\<close> is calling panics instead of returning.\<close>

definition Routine_panics :: "nat \<Rightarrow> CleanupHTTP \<Rightarrow> session \<Rightarrow> local option" where
  "Routine_panics sid c ss =
     (case main ss of
        Cleanup_call w r \<Rightarrow>
          Some (c, ss\<lparr>main := Returning, panicking := True\<rparr>, [Panic sid ''routine''])
      | _ \<Rightarrow> None)"

text \<open>\<^verbatim>\<open>Server.Shutdown(ctx)\<close> ends (lines 70 to 72).\<close>

definition Shutdown_returns :: "outcome \<Rightarrow> nat \<Rightarrow> CleanupHTTP \<Rightarrow> session \<Rightarrow> local option" where
  "Shutdown_returns out sid c ss =
     (case main ss of
        In_shutdown \<Rightarrow>
          (case out of
             Returns None \<Rightarrow> Some (c, ss\<lparr>main := Returning\<rparr>, [Shutdown_done sid out])
           | Returns (Some err) \<Rightarrow>
               Some (c, ss\<lparr>main := Returning\<rparr>,
                     [Log (''Shutdown failed: '' @ Error err), Shutdown_done sid out])
           | Panics \<Rightarrow>
               Some (c, ss\<lparr>main := Returning, panicking := True\<rparr>, [Shutdown_done sid out]))
      | _ \<Rightarrow> None)"

text \<open>\<^verbatim>\<open>Server.ListenAndServe()\<close> returns \<open>err\<close> (lines 42 to 44).\<close>

definition ListenAndServe_returns ::
    "error option \<Rightarrow> nat \<Rightarrow> CleanupHTTP \<Rightarrow> session \<Rightarrow> local option" where
  "ListenAndServe_returns err sid c ss =
     (case server ss of
        Serving \<Rightarrow>
          Some (c, ss\<lparr>server := Server_cas\<rparr>,
                (case err of
                   None \<Rightarrow> []
                 | Some e \<Rightarrow>
                     if e \<noteq> ErrServerClosed
                     then [Log (''ListenAndServe failed: '' @ Error e)] else []))
      | _ \<Rightarrow> None)"

text \<open>
  Lines 46 to 48. \<^verbatim>\<open>close\<close> of a channel that is closed already panics; the goroutine is
  then \<open>Server_crashed\<close>.
\<close>

definition Server_next :: "nat \<Rightarrow> CleanupHTTP \<Rightarrow> session \<Rightarrow> local option" where
  "Server_next sid c ss =
     (case server ss of
        Server_cas \<Rightarrow>
          (case CompareAndSwapInt32 c 0 1 of
             (c', True) \<Rightarrow> Some (c', ss\<lparr>server := Server_close\<rparr>, [Cas_won sid])
           | (c', False) \<Rightarrow> Some (c', ss\<lparr>server := Server_done\<rparr>, [Cas_lost sid]))
      | Server_close \<Rightarrow>
          (case quit ss of
             Open \<Rightarrow> Some (c, ss\<lparr>quit := Closed, server := Server_done\<rparr>, [Quit_closed sid])
           | Closed \<Rightarrow>
               Some (c, ss\<lparr>server := Server_crashed\<rparr>,
                     [Panic sid ''close of closed channel'']))
      | _ \<Rightarrow> None)"

text \<open>\<^verbatim>\<open>handleSignal\<close> receives a signal from \<^verbatim>\<open>interrupt\<close> (lines 130 and 131).\<close>

definition Signal :: "signal \<Rightarrow> nat \<Rightarrow> CleanupHTTP \<Rightarrow> session \<Rightarrow> local option" where
  "Signal sg sid c ss =
     (case handler ss of
        Receiving \<Rightarrow>
          Some (c, ss\<lparr>handler := Check_interrupted\<rparr>,
                [Log (''System call: '' @ signal_String sg)])
      | _ \<Rightarrow> None)"

text \<open>The body of the loop of \<^verbatim>\<open>handleSignal\<close> (lines 132 to 143).\<close>

definition handleSignal_next :: "nat \<Rightarrow> CleanupHTTP \<Rightarrow> session \<Rightarrow> local option" where
  "handleSignal_next sid c ss =
     (case handler ss of
        Check_interrupted \<Rightarrow>
          (if interrupted c then Some (c, ss\<lparr>handler := Receiving\<rparr>, [])
           else Some (c, ss\<lparr>handler := Set_interrupted\<rparr>, []))
      | Set_interrupted \<Rightarrow> Some (c\<lparr>interrupted := True\<rparr>, ss\<lparr>handler := Load_closing\<rparr>, [])
      | Load_closing \<Rightarrow>
          (if isClosed c then Some (c, ss\<lparr>handler := Receiving\<rparr>, [])
           else Some (c, ss\<lparr>handler := Handler_cas\<rparr>, []))
      | Handler_cas \<Rightarrow>
          (case CompareAndSwapInt32 c 0 1 of
             (c', True) \<Rightarrow> Some (c', ss\<lparr>handler := Handler_close\<rparr>, [Cas_won sid])
           | (c', False) \<Rightarrow> Some (c', ss\<lparr>handler := Receiving\<rparr>, [Cas_lost sid]))
      | Handler_close \<Rightarrow>
          (case quit ss of
             Open \<Rightarrow> Some (c, ss\<lparr>quit := Closed, handler := Receiving\<rparr>, [Quit_closed sid])
           | Closed \<Rightarrow>
               Some (c, ss\<lparr>handler := Handler_crashed\<rparr>,
                     [Panic sid ''close of closed channel'']))
      | _ \<Rightarrow> None)"

subsection \<open>The instance with its sessions and its callers\<close>

text \<open>
  A call of a public push or pop from any goroutine is in two atomic steps: the
  \<^verbatim>\<open>isClosed\<close> test, then the stack operation. Between them the call is pending.
\<close>

datatype call = Pushing which cleanupRoutine | Popping which

record system =
  inst :: CleanupHTTP
  sessions :: "session list"
  calls :: "call list"
  events :: "event list"

datatype action =
    Main
  | Callback_panics
  | Shutdown_ends outcome
  | ListenAndServe_ends "error option"
  | Server
  | Deliver signal
  | Handler

datatype label =
    Call_Serve "64 word"
  | Go nat action
  | Begin_push which Routine iface
  | Begin_pop which
  | Finish nat

fun goroutine_step :: "action \<Rightarrow> nat \<Rightarrow> CleanupHTTP \<Rightarrow> session \<Rightarrow> local option" where
  "goroutine_step Main = Serve_next"
| "goroutine_step Callback_panics = Routine_panics"
| "goroutine_step (Shutdown_ends out) = Shutdown_returns out"
| "goroutine_step (ListenAndServe_ends err) = ListenAndServe_returns err"
| "goroutine_step Server = Server_next"
| "goroutine_step (Deliver sg) = Signal sg"
| "goroutine_step Handler = handleSignal_next"

definition begin_push :: "which \<Rightarrow> Routine \<Rightarrow> iface \<Rightarrow> system \<Rightarrow> system" where
  "begin_push w rt a s =
     (if isClosed (inst s) then s\<lparr>events := Log ''Push failed: closed'' # events s\<rparr>
      else s\<lparr>calls := calls s @ [Pushing w \<lparr>routine = rt, arg = a\<rparr>]\<rparr>)"

definition begin_pop :: "which \<Rightarrow> system \<Rightarrow> system" where
  "begin_pop w s =
     (if isClosed (inst s)
      then s\<lparr>events := Pop_result (None, NilV, False) # Log ''Pop failed: closed'' # events s\<rparr>
      else s\<lparr>calls := calls s @ [Popping w]\<rparr>)"

definition finish :: "nat \<Rightarrow> system \<Rightarrow> system option" where
  "finish k s =
     (if k < length (calls s) then
        let rest = take k (calls s) @ drop (Suc k) (calls s) in
        (case calls s ! k of
           Pushing w r \<Rightarrow>
             Some (s\<lparr>inst := with_stack w (push (stack_of w (inst s)) r) (inst s),
                     calls := rest\<rparr>)
         | Popping w \<Rightarrow>
             (case pop (stack_of w (inst s)) of
                (r, True, st) \<Rightarrow>
                  Some (s\<lparr>inst := with_stack w st (inst s), calls := rest,
                          events := Pop_result (routine r, arg r, True) # events s\<rparr>)
              | (r, False, st) \<Rightarrow>
                  Some (s\<lparr>inst := with_stack w st (inst s), calls := rest,
                          events := Pop_result (None, NilV, False) # events s\<rparr>)))
      else None)"

definition step :: "label \<Rightarrow> system \<Rightarrow> system option" where
  "step l s =
     (case l of
        Call_Serve t \<Rightarrow> Some (s\<lparr>sessions := sessions s @ [Serve t]\<rparr>)
      | Go sid a \<Rightarrow>
          (if sid < length (sessions s) then
             (case goroutine_step a sid (inst s) (sessions s ! sid) of
                None \<Rightarrow> None
              | Some (c, ss, evs) \<Rightarrow>
                  Some (s\<lparr>inst := c, sessions := (sessions s)[sid := ss],
                          events := evs @ events s\<rparr>))
           else None)
      | Begin_push w rt a \<Rightarrow> Some (begin_push w rt a s)
      | Begin_pop w \<Rightarrow> Some (begin_pop w s)
      | Finish k \<Rightarrow> finish k s)"

text \<open>A schedule runs from a state; \<open>None\<close> when one of its steps is not possible.\<close>

fun run :: "label list \<Rightarrow> system \<Rightarrow> system option" where
  "run [] s = Some s"
| "run (l # ls) s = (case step l s of None \<Rightarrow> None | Some s' \<Rightarrow> run ls s')"

text \<open>An instance on which no \<^verbatim>\<open>Serve\<close> and no push or pop is running.\<close>

definition idle :: "CleanupHTTP \<Rightarrow> system" where
  "idle c = \<lparr>inst = c, sessions = [], calls = [], events = []\<rparr>"

subsection \<open>Reading the events\<close>

definition wins :: "event list \<Rightarrow> nat" where
  "wins t = length (filter (\<lambda>e. case e of Cas_won _ \<Rightarrow> True | _ \<Rightarrow> False) t)"

definition losses :: "event list \<Rightarrow> nat" where
  "losses t = length (filter (\<lambda>e. case e of Cas_lost _ \<Rightarrow> True | _ \<Rightarrow> False) t)"

definition closes :: "event list \<Rightarrow> nat" where
  "closes t = length (filter (\<lambda>e. case e of Quit_closed _ \<Rightarrow> True | _ \<Rightarrow> False) t)"

definition double_closes :: "event list \<Rightarrow> nat" where
  "double_closes t =
     length (filter (\<lambda>e. case e of Panic _ m \<Rightarrow> m = ''close of closed channel'' | _ \<Rightarrow> False) t)"

text \<open>The routines that the drain of stack \<open>w\<close> in session \<open>sid\<close> popped, and those it
  called and saw return; most recent first.\<close>

definition popped :: "nat \<Rightarrow> which \<Rightarrow> event list \<Rightarrow> cleanupRoutine list" where
  "popped sid w t =
     List.map_filter
       (\<lambda>e. case e of Popped i v r \<Rightarrow> if i = sid \<and> v = w then Some r else None | _ \<Rightarrow> None) t"

definition invoked :: "nat \<Rightarrow> which \<Rightarrow> event list \<Rightarrow> cleanupRoutine list" where
  "invoked sid w t =
     List.map_filter
       (\<lambda>e. case e of Invoked i v r \<Rightarrow> if i = sid \<and> v = w then Some r else None | _ \<Rightarrow> None) t"

definition shutdown_called :: "nat \<Rightarrow> event list \<Rightarrow> bool" where
  "shutdown_called sid t =
     list_ex (\<lambda>e. case e of Shutdown_called i cx \<Rightarrow> i = sid | _ \<Rightarrow> False) t"

definition shutdown_done :: "nat \<Rightarrow> event list \<Rightarrow> bool" where
  "shutdown_done sid t =
     list_ex (\<lambda>e. case e of Shutdown_done i out \<Rightarrow> i = sid | _ \<Rightarrow> False) t"

text \<open>Goroutines that have won the compare-and-swap and have not closed \<^verbatim>\<open>quit\<close> yet.\<close>

definition closers :: "session \<Rightarrow> nat" where
  "closers ss =
     (if server ss = Server_close then 1 else 0) + (if handler ss = Handler_close then 1 else 0)"

definition pending_closes :: "system \<Rightarrow> nat" where
  "pending_closes s = sum_list (map closers (sessions s))"

section \<open>Invariants and sample runs\<close>

definition closed_quit :: "session \<Rightarrow> nat" where
  "closed_quit ss = (if quit ss = Closed then 1 else 0)"

definition gate_step ::
    "CleanupHTTP \<Rightarrow> session \<Rightarrow> CleanupHTTP \<Rightarrow> session \<Rightarrow> event list \<Rightarrow> bool" where
  "gate_step c ss c' ss' evs \<longleftrightarrow>
     wins evs = (if closing c' = closing c then 0 else 1) \<and>
     (closing c' \<noteq> closing c \<longrightarrow> closing c = 0 \<and> closing c' = 1) \<and>
     (0 < losses evs \<longrightarrow> closing c \<noteq> 0) \<and>
     closes evs + double_closes evs + closers ss' = closers ss + wins evs \<and>
     closed_quit ss' = closed_quit ss + closes evs \<and>
     (0 < double_closes evs \<longrightarrow> quit ss = Closed \<and> 0 < closers ss)"

definition gate_ok :: "system \<Rightarrow> bool" where
  "gate_ok s \<longleftrightarrow>
     (closing (inst s) = 0 \<or> closing (inst s) = 1) \<and>
     wins (events s) = (if closing (inst s) = 0 then 0 else 1) \<and>
     (0 < losses (events s) \<longrightarrow> closing (inst s) \<noteq> 0) \<and>
     closes (events s) + pending_closes s = wins (events s) \<and>
     closes (events s) = sum_list (map closed_quit (sessions s)) \<and>
     double_closes (events s) = 0"

fun session_of :: "event \<Rightarrow> nat option" where
  "session_of (Log m) = None"
| "session_of (Cas_won i) = Some i"
| "session_of (Cas_lost i) = Some i"
| "session_of (Quit_closed i) = Some i"
| "session_of (Popped i w r) = Some i"
| "session_of (Invoked i w r) = Some i"
| "session_of (Shutdown_called i cx) = Some i"
| "session_of (Shutdown_done i out) = Some i"
| "session_of (Cancelled i) = Some i"
| "session_of (Panic i m) = Some i"
| "session_of (Pop_result res) = None"

definition session_events :: "nat \<Rightarrow> event list \<Rightarrow> event list" where
  "session_events sid t = filter (\<lambda>e. session_of e = Some sid) t"

definition sessions_ok :: "(nat \<Rightarrow> session \<Rightarrow> event list \<Rightarrow> bool) \<Rightarrow> system \<Rightarrow> bool" where
  "sessions_ok R s \<longleftrightarrow>
     (\<forall>sid. if sid < length (sessions s)
            then R sid (sessions s ! sid) (session_events sid (events s))
            else session_events sid (events s) = [])"

text \<open>The order of the events of one session, read from the most recent event back.\<close>

fun ordered :: "nat \<Rightarrow> event list \<Rightarrow> bool" where
  "ordered sid [] = True"
| "ordered sid (e # t) =
     (ordered sid t \<and>
      (case e of
         Popped i w r \<Rightarrow>
           i = sid \<longrightarrow> (case w of Pre \<Rightarrow> \<not> shutdown_called sid t | Post \<Rightarrow> shutdown_done sid t)
       | Invoked i w r \<Rightarrow>
           i = sid \<longrightarrow> (case w of Pre \<Rightarrow> \<not> shutdown_called sid t | Post \<Rightarrow> shutdown_done sid t)
       | Shutdown_called i cx \<Rightarrow> i = sid \<longrightarrow> popped sid Pre t = invoked sid Pre t
       | _ \<Rightarrow> True))"

text \<open>
  What holds of a session between its start and the end of its \<^verbatim>\<open>Shutdown\<close> call:
  \<^verbatim>\<open>Shutdown\<close> has not ended, nothing has panicked and the drain of the post-shutdown
  stack has not begun.
\<close>

definition early :: "nat \<Rightarrow> session \<Rightarrow> event list \<Rightarrow> bool" where
  "early sid ss t \<longleftrightarrow>
     \<not> shutdown_done sid t \<and> \<not> panicking ss \<and> popped sid Post t = [] \<and>
     invoked sid Post t = []"

text \<open>What the place of the calling goroutine says about the events of its session.\<close>

definition main_ok :: "nat \<Rightarrow> session \<Rightarrow> event list \<Rightarrow> bool" where
  "main_ok sid ss t \<longleftrightarrow>
     ordered sid t \<and>
     (case main ss of
        At_wait \<Rightarrow>
          early sid ss t \<and> \<not> shutdown_called sid t \<and>
          popped sid Pre t = invoked sid Pre t \<and> defers ss = []
      | Cleanup_pop w \<Rightarrow>
          (case w of
             Pre \<Rightarrow> early sid ss t \<and> \<not> shutdown_called sid t \<and>
                    popped sid Pre t = invoked sid Pre t \<and> defers ss = []
           | Post \<Rightarrow> shutdown_done sid t)
      | Cleanup_call w r \<Rightarrow>
          (case w of
             Pre \<Rightarrow> early sid ss t \<and> \<not> shutdown_called sid t \<and>
                    popped sid Pre t = r # invoked sid Pre t \<and> defers ss = []
           | Post \<Rightarrow> shutdown_done sid t)
      | At_defer \<Rightarrow>
          early sid ss t \<and> \<not> shutdown_called sid t \<and>
          popped sid Pre t = invoked sid Pre t \<and> defers ss = []
      | At_ctx \<Rightarrow>
          early sid ss t \<and> \<not> shutdown_called sid t \<and>
          popped sid Pre t = invoked sid Pre t \<and> defers ss = [Deferred_postCleanup]
      | At_shutdown cx \<Rightarrow>
          early sid ss t \<and> \<not> shutdown_called sid t \<and>
          popped sid Pre t = invoked sid Pre t \<and>
          defers ss =
            (if 0 < sint (timeout ss) then [Deferred_cancel, Deferred_postCleanup]
             else [Deferred_postCleanup])
      | In_shutdown \<Rightarrow>
          early sid ss t \<and>
          defers ss =
            (if 0 < sint (timeout ss) then [Deferred_cancel, Deferred_postCleanup]
             else [Deferred_postCleanup])
      | Returning \<Rightarrow> Deferred_postCleanup \<in> set (defers ss) \<longrightarrow> shutdown_done sid t
      | Done \<Rightarrow> True
      | Crashed \<Rightarrow> True)"

definition cleanup1 :: cleanupRoutine where "cleanup1 = \<lparr>routine = Some 1, arg = IntV 2\<rparr>"

definition cleanup2 :: cleanupRoutine where "cleanup2 = \<lparr>routine = Some 2, arg = IntV 1\<rparr>"

definition cleanup3 :: cleanupRoutine where "cleanup3 = \<lparr>routine = Some 3, arg = IntV 4\<rparr>"

definition cleanup4 :: cleanupRoutine where "cleanup4 = \<lparr>routine = Some 4, arg = IntV 3\<rparr>"

definition registered :: CleanupHTTP where
  "registered =
     \<lparr>preRoutines = \<lparr>routines = [cleanup1, cleanup2]\<rparr>,
      postRoutines = \<lparr>routines = [cleanup3, cleanup4]\<rparr>, closing = 0, interrupted = False\<rparr>"

definition interrupt_run :: "label list" where
  "interrupt_run =
     [Call_Serve 5000000000, Go 0 (Deliver SIGINT), Go 0 Handler, Go 0 Handler, Go 0 Handler,
      Go 0 Handler, Go 0 Handler,
      Go 0 Main, Go 0 Main, Go 0 Main, Go 0 Main, Go 0 Main, Go 0 Main, Go 0 Main, Go 0 Main,
      Go 0 Main,
      Go 0 (ListenAndServe_ends (Some ErrServerClosed)), Go 0 Server,
      Go 0 (Shutdown_ends (Returns (Some DeadlineExceeded))),
      Go 0 Main, Go 0 Main, Go 0 Main, Go 0 Main, Go 0 Main, Go 0 Main, Go 0 Main, Go 0 Main]"

definition waited_ok :: "nat \<Rightarrow> session \<Rightarrow> event list \<Rightarrow> bool" where
  "waited_ok sid ss t \<longleftrightarrow> (main ss \<noteq> At_wait \<longrightarrow> quit ss = Closed)"


definition late_run :: "label list" where
  "late_run =
     [Call_Serve 0, Begin_push Pre (Some 5) (IntV 6), Begin_pop Post,
      Go 0 (ListenAndServe_ends (Some ErrServerClosed)), Go 0 Server,
      Go 0 (Deliver SIGTERM), Go 0 Handler, Go 0 Handler, Go 0 Handler]"

text \<open>The \<^verbatim>\<open>timeout\<close> arguments of the \<^verbatim>\<open>Serve\<close> calls of a schedule, in the order of the calls.\<close>

definition timeouts :: "label list \<Rightarrow> 64 word list" where
  "timeouts ls = List.map_filter (\<lambda>l. case l of Call_Serve t \<Rightarrow> Some t | _ \<Rightarrow> None) ls"

text \<open>The context that lines 60 to 68 of \<^verbatim>\<open>Serve\<close> build from the timeout.\<close>

definition context_for :: "64 word \<Rightarrow> ctx" where
  "context_for t = (if 0 < sint t then WithTimeout t else Background)"

definition ctx_ok :: "nat \<Rightarrow> session \<Rightarrow> event list \<Rightarrow> bool" where
  "ctx_ok sid ss t \<longleftrightarrow>
     (\<forall>cx. main ss = At_shutdown cx \<longrightarrow> cx = context_for (timeout ss)) \<and>
     list_all
       (\<lambda>e. case e of
              Shutdown_called i cx \<Rightarrow> i = sid \<longrightarrow> cx = context_for (timeout ss)
            | _ \<Rightarrow> True) t"

text \<open>
  \<^verbatim>\<open>ListenAndServe\<close> fails at once (the port is taken); the session triggers the gate
  itself and goes on to its \<^verbatim>\<open>Shutdown\<close> call.
\<close>

definition failed_start_run :: "64 word \<Rightarrow> label list" where
  "failed_start_run t =
     [Call_Serve t, Go 0 (ListenAndServe_ends (Some (Other ''address in use''))),
      Go 0 Server, Go 0 Server, Go 0 Main, Go 0 Main, Go 0 Main, Go 0 Main, Go 0 Main]"

text \<open>The flag and the place of the calling goroutine of session \<open>sid\<close> after a run.\<close>

definition flag_after :: "label list \<Rightarrow> CleanupHTTP \<Rightarrow> 32 word option" where
  "flag_after ls c = map_option (\<lambda>s. closing (inst s)) (run ls (idle c))"

definition main_after :: "label list \<Rightarrow> CleanupHTTP \<Rightarrow> nat \<Rightarrow> main_pc option" where
  "main_after ls c sid = map_option (\<lambda>s. main (sessions s ! sid)) (run ls (idle c))"

text \<open>
  Session \<open>n\<close> of an instance whose flag is set already: it waits on its open \<^verbatim>\<open>quit\<close>,
  none of its goroutines is about to close it, and its drains have done nothing.
\<close>

definition blocked :: "nat \<Rightarrow> system \<Rightarrow> bool" where
  "blocked n x \<longleftrightarrow>
     isClosed (inst x) \<and> n < length (sessions x) \<and>
     quit (sessions x ! n) = Open \<and> main (sessions x ! n) = At_wait \<and>
     server (sessions x ! n) \<noteq> Server_close \<and> handler (sessions x ! n) \<noteq> Handler_close \<and>
     popped n Pre (events x) = [] \<and> popped n Post (events x) = [] \<and>
     invoked n Pre (events x) = [] \<and> invoked n Post (events x) = []"

text \<open>
  A first \<^verbatim>\<open>Serve\<close> on the default instance during which a \<^verbatim>\<open>PreCleanupPush\<close> passes its
  \<^verbatim>\<open>isClosed\<close> test before the gate triggers and reaches the stack only after \<^verbatim>\<open>Serve\<close>
  has returned; and the instance that this run leaves.
\<close>

definition late_push_run :: "label list" where
  "late_push_run =
     [Call_Serve 5000000000, Begin_push Pre (Some 1) (IntV 2),
      Go 0 (ListenAndServe_ends (Some (Other ''address in use''))), Go 0 Server, Go 0 Server,
      Go 0 Main, Go 0 Main, Go 0 Main, Go 0 Main, Go 0 Main,
      Go 0 (Shutdown_ends (Returns None)),
      Go 0 Main, Go 0 Main, Go 0 Main, Go 0 Main, Finish 0]"

definition leftover :: system where
  "leftover =
     \<lparr>inst = \<lparr>preRoutines = \<lparr>routines = [cleanup1]\<rparr>, postRoutines = \<lparr>routines = []\<rparr>,
              closing = 1, interrupted = False\<rparr>,
      sessions = [\<lparr>quit = Closed, timeout = 5000000000, main = Done, defers = [],
                   panicking = False, server = Server_done, handler = Receiving\<rparr>],
      calls = [],
      events =
        [Cancelled 0, Shutdown_done 0 (Returns None),
         Shutdown_called 0 (WithTimeout 5000000000), Quit_closed 0, Cas_won 0,
         Log ''ListenAndServe failed: address in use'']\<rparr>"

definition second_run :: "label list" where
  "second_run =
     [Call_Serve 5000000000, Go 1 (ListenAndServe_ends (Some ErrServerClosed)), Go 1 Server,
      Go 1 (Deliver SIGINT), Go 1 Handler, Go 1 Handler, Go 1 Handler, Begin_pop Pre]"

section \<open>Properties of the stack\<close>

lemma pop_push: "pop (push s a) = (a, True, s)"
  by (simp add: pop_def push_def Let_def)

lemma foldl_push_routines: "routines (foldl push s as) = routines s @ as"
  by (induction as arbitrary: s) (simp_all add: push_def)

lemma pop_snoc:
  "routines s = as @ [a] \<Longrightarrow> pop s = (a, True, s\<lparr>routines := as\<rparr>)"
  by (simp add: pop_def Let_def)

lemma pop_empty: "routines s = [] \<Longrightarrow> pop s = (zero_cleanupRoutine, False, s)"
  by (simp add: pop_def)

lemma drain_routines: "drain s = rev (routines s)"
proof (induction "routines s" arbitrary: s rule: rev_induct)
  case Nil
  then have "routines s = []" by simp
  then show ?case by (subst drain.simps) (simp add: pop_empty)
next
  case (snoc a as)
  from snoc.hyps(2) have rs: "routines s = as @ [a]" by simp
  have "drain (s\<lparr>routines := as\<rparr>) = rev (routines (s\<lparr>routines := as\<rparr>))"
    by (rule snoc.hyps(1)) simp
  then show ?case
    by (subst drain.simps) (simp add: pop_snoc [OF rs] rs)
qed

text \<open>
  What \<^verbatim>\<open>cleanup\<close> popped, followed by what it left on the stack from the top down, is
  the stack it started on from the top down; and it leaves something only when it
  panicked.
\<close>

lemma cleanup_split:
  "cleanup returns k s = (s', rs, p) \<Longrightarrow>
   rs @ rev (routines s') = rev (routines s) \<and> (p \<or> routines s' = [])"
proof (induction "routines s" arbitrary: s k s' rs p rule: rev_induct)
  case Nil
  then have e: "routines s = []" by simp
  have "cleanup returns k s = (s, [], False)"
    by (subst cleanup.simps) (simp add: pop_empty [OF e])
  with Nil(2) have "s' = s" "rs = []" by simp_all
  then show ?case by (simp add: e)
next
  case (snoc a as)
  let ?s1 = "s\<lparr>routines := as\<rparr>"
  from snoc.hyps(2) have r: "routines s = as @ [a]" by simp
  note p = pop_snoc [OF r]
  show ?case
  proof (cases "routine a \<noteq> None \<and> returns k")
    case False
    with snoc.prems have "s' = ?s1" "rs = [a]" "p"
      by (subst (asm) cleanup.simps; auto simp: p split: option.splits if_splits)+
    then show ?thesis by (simp add: r)
  next
    case True
    obtain s2 rs2 p2 where c: "cleanup returns (Suc k) ?s1 = (s2, rs2, p2)"
      by (cases "cleanup returns (Suc k) ?s1") auto
    have "as = routines ?s1" by simp
    from snoc.hyps(1) [OF this c]
    have ih: "rs2 @ rev (routines s2) = rev as \<and> (p2 \<or> routines s2 = [])" by simp
    from snoc.prems True c have "s' = s2" "rs = a # rs2" "p = p2"
      by (subst (asm) cleanup.simps; auto simp: p)+
    with ih show ?thesis by (simp add: r)
  qed
qed

lemma cleanup_routines:
  assumes "\<forall>a\<in>set (routines s). routine a \<noteq> None" and "\<forall>j. returns j"
  shows "cleanup returns k s = (s\<lparr>routines := []\<rparr>, rev (routines s), False)"
  using assms(1)
proof (induction "routines s" arbitrary: s k rule: rev_induct)
  case Nil
  then have e: "routines s = []" by simp
  show ?case by (subst cleanup.simps) (simp add: pop_empty [OF e] e)
next
  case (snoc a as)
  let ?s' = "s\<lparr>routines := as\<rparr>"
  from snoc.hyps(2) have rs: "routines s = as @ [a]" by simp
  from snoc.prems rs obtain f where f: "routine a = Some f" by auto
  have "as = routines ?s'" by simp
  moreover have "\<forall>a\<in>set (routines ?s'). routine a \<noteq> None"
    using snoc.prems rs by simp
  ultimately have ih:
    "cleanup returns (Suc k) ?s' = (?s'\<lparr>routines := []\<rparr>, rev (routines ?s'), False)"
    by (rule snoc.hyps(1))
  show ?case
    by (subst cleanup.simps) (simp add: pop_snoc [OF rs] f ih rs assms(2))
qed

text \<open>
  Claim C2 (LIFO law), for every stack \<open>s\<close> and every sequence of pushes
  \<open>as = [a1, ..., an]\<close>, nil routines included. After a further push of \<open>a\<close>, \<^verbatim>\<open>pop\<close>
  returns \<open>a\<close>, the element pushed last and not yet popped, and leaves the stack as it
  was before that push. Popping until the stack is empty returns exactly
  \<open>an, ..., a1\<close> and then what \<open>s\<close> held, newest first. The drain loop of \<^verbatim>\<open>cleanup\<close>,
  however its calls end, pops in that same order: what it popped, followed by what it
  left on the stack from the top down, is that same sequence, and it leaves something
  on the stack only when a call panicked. When no routine is nil and every call returns
  it pops the whole sequence and ends without a panic.
\<close>

theorem LIFO_law:
  "pop (foldl push s (as @ [a])) = (a, True, foldl push s as) \<and>
   drain (foldl push s as) = rev as @ rev (routines s) \<and>
   (case cleanup returns k (foldl push s as) of
      (s', rs, p) \<Rightarrow>
        rs @ rev (routines s') = rev as @ rev (routines s) \<and> (p \<or> routines s' = [])) \<and>
   ((\<forall>a\<in>set (routines s @ as). routine a \<noteq> None) \<and> (\<forall>j. returns j) \<longrightarrow>
      cleanup returns k (foldl push s as) =
        (s\<lparr>routines := []\<rparr>, rev as @ rev (routines s), False))"
proof (intro conjI impI)
  show "pop (foldl push s (as @ [a])) = (a, True, foldl push s as)"
    by (simp add: pop_push)
  show "drain (foldl push s as) = rev as @ rev (routines s)"
    by (simp add: drain_routines foldl_push_routines)
  show "case cleanup returns k (foldl push s as) of
      (s', rs, p) \<Rightarrow>
        rs @ rev (routines s') = rev as @ rev (routines s) \<and> (p \<or> routines s' = [])"
  proof -
    obtain s' rs p where c: "cleanup returns k (foldl push s as) = (s', rs, p)"
      by (cases "cleanup returns k (foldl push s as)") auto
    from cleanup_split [OF c] show ?thesis
      by (simp add: c foldl_push_routines)
  qed
next
  assume h: "(\<forall>a\<in>set (routines s @ as). routine a \<noteq> None) \<and> (\<forall>j. returns j)"
  then have "cleanup returns k (foldl push s as) =
        ((foldl push s as)\<lparr>routines := []\<rparr>, rev (routines (foldl push s as)), False)"
    by (intro cleanup_routines) (simp_all add: foldl_push_routines)
  moreover have "(foldl push s as)\<lparr>routines := []\<rparr> = s\<lparr>routines := []\<rparr>"
    by (induction as arbitrary: s) (simp_all add: push_def)
  ultimately show
    "cleanup returns k (foldl push s as) = (s\<lparr>routines := []\<rparr>, rev as @ rev (routines s), False)"
    by (simp add: foldl_push_routines)
qed

text \<open>
  Two drains of the stack after the pushes \<open>cleanup3, r9, cleanup4\<close> (\<open>r9\<close> stands for
  \<open>\<lparr>routine = Some 9, arg = IntV 0\<rparr>\<close>): one in which every call returns, and one in which
  the second call, that of \<open>r9\<close>, panics, so that \<open>cleanup3\<close> stays on the stack.
\<close>

theorem LIFO_law_witness:
  "drain (foldl push \<lparr>routines = []\<rparr>
      [\<lparr>routine = Some 3, arg = IntV 4\<rparr>, \<lparr>routine = Some 9, arg = IntV 0\<rparr>,
       \<lparr>routine = Some 4, arg = IntV 3\<rparr>]) =
   [\<lparr>routine = Some 4, arg = IntV 3\<rparr>, \<lparr>routine = Some 9, arg = IntV 0\<rparr>,
    \<lparr>routine = Some 3, arg = IntV 4\<rparr>] \<and>
   cleanup (\<lambda>j. True) 0 (foldl push \<lparr>routines = []\<rparr>
      [\<lparr>routine = Some 3, arg = IntV 4\<rparr>, \<lparr>routine = Some 9, arg = IntV 0\<rparr>,
       \<lparr>routine = Some 4, arg = IntV 3\<rparr>]) =
   (\<lparr>routines = []\<rparr>,
    [\<lparr>routine = Some 4, arg = IntV 3\<rparr>, \<lparr>routine = Some 9, arg = IntV 0\<rparr>,
     \<lparr>routine = Some 3, arg = IntV 4\<rparr>], False) \<and>
   cleanup (\<lambda>j. j \<noteq> 1) 0 (foldl push \<lparr>routines = []\<rparr>
      [\<lparr>routine = Some 3, arg = IntV 4\<rparr>, \<lparr>routine = Some 9, arg = IntV 0\<rparr>,
       \<lparr>routine = Some 4, arg = IntV 3\<rparr>]) =
   (\<lparr>routines = [\<lparr>routine = Some 3, arg = IntV 4\<rparr>]\<rparr>,
    [\<lparr>routine = Some 4, arg = IntV 3\<rparr>, \<lparr>routine = Some 9, arg = IntV 0\<rparr>], True)"
proof -
  let ?as = "[\<lparr>routine = Some 3, arg = IntV 4\<rparr>, \<lparr>routine = Some 9, arg = IntV 0\<rparr>,
       \<lparr>routine = Some 4, arg = IntV 3\<rparr>]"
  have panic: "cleanup (\<lambda>j. j \<noteq> 1) 0 (foldl push \<lparr>routines = []\<rparr> ?as) =
      (\<lparr>routines = [\<lparr>routine = Some 3, arg = IntV 4\<rparr>]\<rparr>,
       [\<lparr>routine = Some 4, arg = IntV 3\<rparr>, \<lparr>routine = Some 9, arg = IntV 0\<rparr>], True)"
    by (simp add: cleanup.simps push_def pop_def Let_def)
  show ?thesis
    using LIFO_law [of "\<lparr>routines = []\<rparr>" ?as "\<lparr>routine = None, arg = NilV\<rparr>" "\<lambda>j. True" 0] panic
    by simp
qed

section \<open>Properties of the public push and pop\<close>

text \<open>
  Claim C4 (rejection after close). On an instance whose \<^verbatim>\<open>closing\<close> flag is not zero,
  \<^verbatim>\<open>PreCleanupPush\<close> and \<^verbatim>\<open>PostCleanupPush\<close> log "Push failed: closed" and leave the
  instance, and so both stacks, as they were; \<^verbatim>\<open>PreCleanupPop\<close> and \<^verbatim>\<open>PostCleanupPop\<close>
  log "Pop failed: closed", return \<^verbatim>\<open>(nil, nil, false)\<close> and leave the instance as it
  was.
\<close>

theorem rejection_after_close:
  assumes "isClosed c"
  shows "PreCleanupPush c rt a = (c, [''Push failed: closed'']) \<and>
         PostCleanupPush c rt a = (c, [''Push failed: closed'']) \<and>
         PreCleanupPop c = ((None, NilV, False), c, [''Pop failed: closed'']) \<and>
         PostCleanupPop c = ((None, NilV, False), c, [''Pop failed: closed''])"
  using assms
  by (simp add: PreCleanupPush_def PostCleanupPush_def PreCleanupPop_def PostCleanupPop_def
      cleanupPush_def cleanupPop_def)

theorem rejection_after_close_witness:
  "isClosed (defaultCleanupHTTP\<lparr>preRoutines := \<lparr>routines = [\<lparr>routine = Some 1, arg = IntV 2\<rparr>]\<rparr>,
                                closing := 1\<rparr>) \<and>
   PreCleanupPush
     (defaultCleanupHTTP\<lparr>preRoutines := \<lparr>routines = [\<lparr>routine = Some 1, arg = IntV 2\<rparr>]\<rparr>,
                          closing := 1\<rparr>) (Some 7) (IntV 5) =
     (defaultCleanupHTTP\<lparr>preRoutines := \<lparr>routines = [\<lparr>routine = Some 1, arg = IntV 2\<rparr>]\<rparr>,
                          closing := 1\<rparr>, [''Push failed: closed'']) \<and>
   PreCleanupPop
     (defaultCleanupHTTP\<lparr>preRoutines := \<lparr>routines = [\<lparr>routine = Some 1, arg = IntV 2\<rparr>]\<rparr>,
                          closing := 1\<rparr>) =
     ((None, NilV, False),
      defaultCleanupHTTP\<lparr>preRoutines := \<lparr>routines = [\<lparr>routine = Some 1, arg = IntV 2\<rparr>]\<rparr>,
                         closing := 1\<rparr>, [''Pop failed: closed''])"
proof -
  have h: "isClosed
    (defaultCleanupHTTP\<lparr>preRoutines := \<lparr>routines = [\<lparr>routine = Some 1, arg = IntV 2\<rparr>]\<rparr>,
                         closing := 1\<rparr>)"
    by (simp add: isClosed_def)
  show ?thesis
    using h rejection_after_close [OF h, of "Some 7" "IntV 5"] by simp
qed

section \<open>Schedules and steps\<close>

lemma run_append:
  "run (xs @ ys) s = (case run xs s of None \<Rightarrow> None | Some s' \<Rightarrow> run ys s')"
  by (induction xs arbitrary: s) (auto split: option.splits)

lemma run_invariant:
  assumes "run ls s = Some s'" and "P s"
    and "\<And>l s s'. P s \<Longrightarrow> step l s = Some s' \<Longrightarrow> P s'"
  shows "P s'"
  using assms(1,2)
proof (induction ls arbitrary: s)
  case Nil
  then show ?case by simp
next
  case (Cons l ls)
  then show ?case by (auto split: option.splits dest: assms(3))
qed

lemma step_cases [consumes 1, case_names serve go begin_push begin_pop finish]:
  assumes "step l s = Some s'"
  obtains
    (serve) t where "l = Call_Serve t" "s' = s\<lparr>sessions := sessions s @ [Serve t]\<rparr>"
  | (go) sid a c ss evs where "l = Go sid a" "sid < length (sessions s)"
      "goroutine_step a sid (inst s) (sessions s ! sid) = Some (c, ss, evs)"
      "s' = s\<lparr>inst := c, sessions := (sessions s)[sid := ss], events := evs @ events s\<rparr>"
  | (begin_push) w rt a where "l = Begin_push w rt a" "s' = begin_push w rt a s"
  | (begin_pop) w where "l = Begin_pop w" "s' = begin_pop w s"
  | (finish) k where "l = Finish k" "finish k s = Some s'"
  using assms by (cases l) (auto simp: step_def split: option.splits if_splits)

lemma sum_list_map_update:
  "i < length xs \<Longrightarrow>
   sum_list (map f (xs[i := y])) + f (xs ! i) = sum_list (map f xs) + (f y :: nat)"
proof (induction xs arbitrary: i)
  case Nil
  then show ?case by simp
next
  case (Cons x xs)
  then show ?case by (cases i) auto
qed

lemma nth_le_sum_list_map: "i < length xs \<Longrightarrow> (f (xs ! i) :: nat) \<le> sum_list (map f xs)"
  by (simp add: member_le_sum_list)

lemma with_stack_frame [simp]:
  "closing (with_stack w st c) = closing c"
  "interrupted (with_stack w st c) = interrupted c"
  "stack_of w (with_stack w st c) = st"
  "isClosed (with_stack w st c) = isClosed c"
  by (cases w; simp add: isClosed_def)+

lemma wins_simps [simp]:
  "wins [] = 0" "wins (a @ b) = wins a + wins b"
  "wins (Cas_won i # t) = Suc (wins t)" "wins (Log m # t) = wins t"
  "wins (Cas_lost i # t) = wins t" "wins (Quit_closed i # t) = wins t"
  "wins (Popped i w r # t) = wins t" "wins (Invoked i w r # t) = wins t"
  "wins (Shutdown_called i cx # t) = wins t" "wins (Shutdown_done i out # t) = wins t"
  "wins (Cancelled i # t) = wins t" "wins (Panic i m # t) = wins t"
  "wins (Pop_result res # t) = wins t"
  by (simp_all add: wins_def)

lemma losses_simps [simp]:
  "losses [] = 0" "losses (a @ b) = losses a + losses b"
  "losses (Cas_won i # t) = losses t" "losses (Log m # t) = losses t"
  "losses (Cas_lost i # t) = Suc (losses t)" "losses (Quit_closed i # t) = losses t"
  "losses (Popped i w r # t) = losses t" "losses (Invoked i w r # t) = losses t"
  "losses (Shutdown_called i cx # t) = losses t" "losses (Shutdown_done i out # t) = losses t"
  "losses (Cancelled i # t) = losses t" "losses (Panic i m # t) = losses t"
  "losses (Pop_result res # t) = losses t"
  by (simp_all add: losses_def)

lemma closes_simps [simp]:
  "closes [] = 0" "closes (a @ b) = closes a + closes b"
  "closes (Cas_won i # t) = closes t" "closes (Log m # t) = closes t"
  "closes (Cas_lost i # t) = closes t" "closes (Quit_closed i # t) = Suc (closes t)"
  "closes (Popped i w r # t) = closes t" "closes (Invoked i w r # t) = closes t"
  "closes (Shutdown_called i cx # t) = closes t" "closes (Shutdown_done i out # t) = closes t"
  "closes (Cancelled i # t) = closes t" "closes (Panic i m # t) = closes t"
  "closes (Pop_result res # t) = closes t"
  by (simp_all add: closes_def)

lemma double_closes_simps [simp]:
  "double_closes [] = 0" "double_closes (a @ b) = double_closes a + double_closes b"
  "double_closes (Cas_won i # t) = double_closes t" "double_closes (Log m # t) = double_closes t"
  "double_closes (Cas_lost i # t) = double_closes t"
  "double_closes (Quit_closed i # t) = double_closes t"
  "double_closes (Popped i w r # t) = double_closes t"
  "double_closes (Invoked i w r # t) = double_closes t"
  "double_closes (Shutdown_called i cx # t) = double_closes t"
  "double_closes (Shutdown_done i out # t) = double_closes t"
  "double_closes (Cancelled i # t) = double_closes t"
  "double_closes (Panic i m # t) =
     (if m = ''close of closed channel'' then Suc (double_closes t) else double_closes t)"
  "double_closes (Pop_result res # t) = double_closes t"
  by (simp_all add: double_closes_def)

lemma popped_simps [simp]:
  "popped sid w [] = []"
  "popped sid w (a @ b) = popped sid w a @ popped sid w b"
  "popped sid w (e # t) =
     (case e of
        Popped i v r \<Rightarrow> if i = sid \<and> v = w then r # popped sid w t else popped sid w t
      | _ \<Rightarrow> popped sid w t)"
  by (simp_all add: popped_def List.map_filter_def split: event.splits)

lemma invoked_simps [simp]:
  "invoked sid w [] = []"
  "invoked sid w (a @ b) = invoked sid w a @ invoked sid w b"
  "invoked sid w (e # t) =
     (case e of
        Invoked i v r \<Rightarrow> if i = sid \<and> v = w then r # invoked sid w t else invoked sid w t
      | _ \<Rightarrow> invoked sid w t)"
  by (simp_all add: invoked_def List.map_filter_def split: event.splits)

lemma shutdown_called_simps [simp]:
  "shutdown_called sid [] = False"
  "shutdown_called sid (a @ b) = (shutdown_called sid a \<or> shutdown_called sid b)"
  "shutdown_called sid (e # t) =
     ((case e of Shutdown_called i cx \<Rightarrow> i = sid | _ \<Rightarrow> False) \<or> shutdown_called sid t)"
  by (simp_all add: shutdown_called_def list_ex_iff) blast

lemma shutdown_done_simps [simp]:
  "shutdown_done sid [] = False"
  "shutdown_done sid (a @ b) = (shutdown_done sid a \<or> shutdown_done sid b)"
  "shutdown_done sid (e # t) =
     ((case e of Shutdown_done i out \<Rightarrow> i = sid | _ \<Rightarrow> False) \<or> shutdown_done sid t)"
  by (simp_all add: shutdown_done_def list_ex_iff) blast

lemma Serve_next_cases [consumes 1, case_names wait pop_some pop_none call_nil call_ok
    reg_defer ctx_timeout ctx_background shutdown return_done return_cancel return_post]:
  assumes "Serve_next sid c ss = Some (c', ss', evs)"
  obtains
    (wait) "main ss = At_wait" "quit ss = Closed" "c' = c"
      "ss' = ss\<lparr>main := Cleanup_pop Pre\<rparr>" "evs = []"
  | (pop_some) w r st where "main ss = Cleanup_pop w" "pop (stack_of w c) = (r, True, st)"
      "c' = with_stack w st c" "ss' = ss\<lparr>main := Cleanup_call w r\<rparr>" "evs = [Popped sid w r]"
  | (pop_none) w r st where "main ss = Cleanup_pop w" "pop (stack_of w c) = (r, False, st)"
      "c' = with_stack w st c"
      "ss' = ss\<lparr>main := (case w of Pre \<Rightarrow> At_defer | Post \<Rightarrow> Returning)\<rparr>" "evs = []"
  | (call_nil) w r where "main ss = Cleanup_call w r" "routine r = None" "c' = c"
      "ss' = ss\<lparr>main := Returning, panicking := True\<rparr>" "evs = [Panic sid ''call of nil func'']"
  | (call_ok) w r f where "main ss = Cleanup_call w r" "routine r = Some f" "c' = c"
      "ss' = ss\<lparr>main := Cleanup_pop w\<rparr>" "evs = [Invoked sid w r]"
  | (reg_defer) "main ss = At_defer" "c' = c"
      "ss' = ss\<lparr>defers := Deferred_postCleanup # defers ss, main := At_ctx\<rparr>" "evs = []"
  | (ctx_timeout) "main ss = At_ctx" "0 < sint (timeout ss)" "c' = c"
      "ss' = ss\<lparr>defers := Deferred_cancel # defers ss,
                 main := At_shutdown (WithTimeout (timeout ss))\<rparr>" "evs = []"
  | (ctx_background) "main ss = At_ctx" "\<not> 0 < sint (timeout ss)" "c' = c"
      "ss' = ss\<lparr>main := At_shutdown Background\<rparr>" "evs = []"
  | (shutdown) cx where "main ss = At_shutdown cx" "c' = c"
      "ss' = ss\<lparr>main := In_shutdown\<rparr>" "evs = [Shutdown_called sid cx]"
  | (return_done) "main ss = Returning" "defers ss = []" "c' = c"
      "ss' = ss\<lparr>main := (if panicking ss then Crashed else Done)\<rparr>" "evs = []"
  | (return_cancel) ds where "main ss = Returning" "defers ss = Deferred_cancel # ds" "c' = c"
      "ss' = ss\<lparr>defers := ds\<rparr>" "evs = [Cancelled sid]"
  | (return_post) ds where "main ss = Returning" "defers ss = Deferred_postCleanup # ds"
      "c' = c" "ss' = ss\<lparr>defers := ds, main := Cleanup_pop Post\<rparr>" "evs = []"
proof (cases "main ss")
  case At_wait
  with assms that(1) show ?thesis
    by (auto simp: Serve_next_def split: chan.splits)
next
  case (Cleanup_pop w)
  with assms that(2,3) show ?thesis
    by (auto simp: Serve_next_def split: prod.splits bool.splits)
next
  case (Cleanup_call w r)
  with assms that(4,5) show ?thesis
    by (auto simp: Serve_next_def split: option.splits)
next
  case At_defer
  with assms that(6) show ?thesis by (auto simp: Serve_next_def)
next
  case At_ctx
  with assms that(7,8) show ?thesis by (auto simp: Serve_next_def split: if_splits)
next
  case (At_shutdown cx)
  with assms that(9) show ?thesis by (auto simp: Serve_next_def)
next
  case In_shutdown
  with assms show ?thesis by (auto simp: Serve_next_def)
next
  case Returning
  with assms that(10,11,12) show ?thesis
    by (auto simp: Serve_next_def split: list.splits deferred.splits)
next
  case Done
  with assms show ?thesis by (auto simp: Serve_next_def)
next
  case Crashed
  with assms show ?thesis by (auto simp: Serve_next_def)
qed

lemma Routine_panics_cases [consumes 1, case_names panics]:
  assumes "Routine_panics sid c ss = Some (c', ss', evs)"
  obtains (panics) w r where "main ss = Cleanup_call w r" "c' = c"
      "ss' = ss\<lparr>main := Returning, panicking := True\<rparr>" "evs = [Panic sid ''routine'']"
  using assms by (cases "main ss") (auto simp: Routine_panics_def)

lemma Shutdown_returns_cases [consumes 1, case_names nil err panic]:
  assumes "Shutdown_returns out sid c ss = Some (c', ss', evs)"
  obtains
    (nil) "main ss = In_shutdown" "out = Returns None" "c' = c"
      "ss' = ss\<lparr>main := Returning\<rparr>" "evs = [Shutdown_done sid out]"
  | (err) e where "main ss = In_shutdown" "out = Returns (Some e)" "c' = c"
      "ss' = ss\<lparr>main := Returning\<rparr>"
      "evs = [Log (''Shutdown failed: '' @ Error e), Shutdown_done sid out]"
  | (panic) "main ss = In_shutdown" "out = Panics" "c' = c"
      "ss' = ss\<lparr>main := Returning, panicking := True\<rparr>" "evs = [Shutdown_done sid out]"
  using assms
  by (cases "main ss") (auto simp: Shutdown_returns_def split: outcome.splits option.splits)

lemma ListenAndServe_returns_cases [consumes 1, case_names returns]:
  assumes "ListenAndServe_returns err sid c ss = Some (c', ss', evs)"
  obtains (returns) "server ss = Serving" "c' = c" "ss' = ss\<lparr>server := Server_cas\<rparr>"
      "evs = [] \<or> (\<exists>m. evs = [Log m])"
  using assms
  by (cases "server ss") (auto simp: ListenAndServe_returns_def split: option.splits)

lemma Server_next_cases [consumes 1, case_names won lost close double_close]:
  assumes "Server_next sid c ss = Some (c', ss', evs)"
  obtains
    (won) "server ss = Server_cas" "closing c = 0" "c' = c\<lparr>closing := 1\<rparr>"
      "ss' = ss\<lparr>server := Server_close\<rparr>" "evs = [Cas_won sid]"
  | (lost) "server ss = Server_cas" "closing c \<noteq> 0" "c' = c"
      "ss' = ss\<lparr>server := Server_done\<rparr>" "evs = [Cas_lost sid]"
  | (close) "server ss = Server_close" "quit ss = Open" "c' = c"
      "ss' = ss\<lparr>quit := Closed, server := Server_done\<rparr>" "evs = [Quit_closed sid]"
  | (double_close) "server ss = Server_close" "quit ss = Closed" "c' = c"
      "ss' = ss\<lparr>server := Server_crashed\<rparr>" "evs = [Panic sid ''close of closed channel'']"
  using assms
  by (cases "server ss")
     (auto simp: Server_next_def CompareAndSwapInt32_def split: if_splits chan.splits)

lemma Signal_cases [consumes 1, case_names received]:
  assumes "Signal sg sid c ss = Some (c', ss', evs)"
  obtains (received) "handler ss = Receiving" "c' = c" "ss' = ss\<lparr>handler := Check_interrupted\<rparr>"
      "evs = [Log (''System call: '' @ signal_String sg)]"
  using assms by (cases "handler ss") (auto simp: Signal_def)

lemma handleSignal_next_cases [consumes 1, case_names seen unseen set_flag closed opened won lost
    close double_close]:
  assumes "handleSignal_next sid c ss = Some (c', ss', evs)"
  obtains
    (seen) "handler ss = Check_interrupted" "interrupted c" "c' = c"
      "ss' = ss\<lparr>handler := Receiving\<rparr>" "evs = []"
  | (unseen) "handler ss = Check_interrupted" "\<not> interrupted c" "c' = c"
      "ss' = ss\<lparr>handler := Set_interrupted\<rparr>" "evs = []"
  | (set_flag) "handler ss = Set_interrupted" "c' = c\<lparr>interrupted := True\<rparr>"
      "ss' = ss\<lparr>handler := Load_closing\<rparr>" "evs = []"
  | (closed) "handler ss = Load_closing" "isClosed c" "c' = c"
      "ss' = ss\<lparr>handler := Receiving\<rparr>" "evs = []"
  | (opened) "handler ss = Load_closing" "\<not> isClosed c" "c' = c"
      "ss' = ss\<lparr>handler := Handler_cas\<rparr>" "evs = []"
  | (won) "handler ss = Handler_cas" "closing c = 0" "c' = c\<lparr>closing := 1\<rparr>"
      "ss' = ss\<lparr>handler := Handler_close\<rparr>" "evs = [Cas_won sid]"
  | (lost) "handler ss = Handler_cas" "closing c \<noteq> 0" "c' = c"
      "ss' = ss\<lparr>handler := Receiving\<rparr>" "evs = [Cas_lost sid]"
  | (close) "handler ss = Handler_close" "quit ss = Open" "c' = c"
      "ss' = ss\<lparr>quit := Closed, handler := Receiving\<rparr>" "evs = [Quit_closed sid]"
  | (double_close) "handler ss = Handler_close" "quit ss = Closed" "c' = c"
      "ss' = ss\<lparr>handler := Handler_crashed\<rparr>" "evs = [Panic sid ''close of closed channel'']"
  using assms
  by (cases "handler ss")
     (auto simp: handleSignal_next_def CompareAndSwapInt32_def split: if_splits chan.splits)

lemma goroutine_step_cases [consumes 1, case_names
    wait pop_some pop_none call_nil call_ok reg_defer ctx_timeout ctx_background shutdown
    return_done return_cancel return_post routine_panics shutdown_nil shutdown_err
    shutdown_panic listen_returns server_won server_lost server_close server_double_close
    signal seen unseen set_flag closed opened handler_won handler_lost handler_close
    handler_double_close]:
  assumes "goroutine_step a sid c ss = Some (c', ss', evs)"
  obtains
    (wait) "a = Main" "main ss = At_wait" "quit ss = Closed" "c' = c"
      "ss' = ss\<lparr>main := Cleanup_pop Pre\<rparr>" "evs = []"
  | (pop_some) w r st where "a = Main" "main ss = Cleanup_pop w"
      "pop (stack_of w c) = (r, True, st)"
      "c' = with_stack w st c" "ss' = ss\<lparr>main := Cleanup_call w r\<rparr>" "evs = [Popped sid w r]"
  | (pop_none) w r st where "a = Main" "main ss = Cleanup_pop w"
      "pop (stack_of w c) = (r, False, st)" "c' = with_stack w st c"
      "ss' = ss\<lparr>main := (case w of Pre \<Rightarrow> At_defer | Post \<Rightarrow> Returning)\<rparr>" "evs = []"
  | (call_nil) w r where "a = Main" "main ss = Cleanup_call w r" "routine r = None" "c' = c"
      "ss' = ss\<lparr>main := Returning, panicking := True\<rparr>" "evs = [Panic sid ''call of nil func'']"
  | (call_ok) w r f where "a = Main" "main ss = Cleanup_call w r" "routine r = Some f" "c' = c"
      "ss' = ss\<lparr>main := Cleanup_pop w\<rparr>" "evs = [Invoked sid w r]"
  | (reg_defer) "a = Main" "main ss = At_defer" "c' = c"
      "ss' = ss\<lparr>defers := Deferred_postCleanup # defers ss, main := At_ctx\<rparr>" "evs = []"
  | (ctx_timeout) "a = Main" "main ss = At_ctx" "0 < sint (timeout ss)" "c' = c"
      "ss' = ss\<lparr>defers := Deferred_cancel # defers ss,
                 main := At_shutdown (WithTimeout (timeout ss))\<rparr>" "evs = []"
  | (ctx_background) "a = Main" "main ss = At_ctx" "\<not> 0 < sint (timeout ss)" "c' = c"
      "ss' = ss\<lparr>main := At_shutdown Background\<rparr>" "evs = []"
  | (shutdown) cx where "a = Main" "main ss = At_shutdown cx" "c' = c"
      "ss' = ss\<lparr>main := In_shutdown\<rparr>" "evs = [Shutdown_called sid cx]"
  | (return_done) "a = Main" "main ss = Returning" "defers ss = []" "c' = c"
      "ss' = ss\<lparr>main := (if panicking ss then Crashed else Done)\<rparr>" "evs = []"
  | (return_cancel) ds where "a = Main" "main ss = Returning"
      "defers ss = Deferred_cancel # ds" "c' = c" "ss' = ss\<lparr>defers := ds\<rparr>" "evs = [Cancelled sid]"
  | (return_post) ds where "a = Main" "main ss = Returning"
      "defers ss = Deferred_postCleanup # ds"
      "c' = c" "ss' = ss\<lparr>defers := ds, main := Cleanup_pop Post\<rparr>" "evs = []"
  | (routine_panics) w r where "a = Callback_panics" "main ss = Cleanup_call w r" "c' = c"
      "ss' = ss\<lparr>main := Returning, panicking := True\<rparr>" "evs = [Panic sid ''routine'']"
  | (shutdown_nil) "a = Shutdown_ends (Returns None)" "main ss = In_shutdown" "c' = c"
      "ss' = ss\<lparr>main := Returning\<rparr>" "evs = [Shutdown_done sid (Returns None)]"
  | (shutdown_err) e where "a = Shutdown_ends (Returns (Some e))" "main ss = In_shutdown"
      "c' = c" "ss' = ss\<lparr>main := Returning\<rparr>"
      "evs = [Log (''Shutdown failed: '' @ Error e), Shutdown_done sid (Returns (Some e))]"
  | (shutdown_panic) "a = Shutdown_ends Panics" "main ss = In_shutdown" "c' = c"
      "ss' = ss\<lparr>main := Returning, panicking := True\<rparr>" "evs = [Shutdown_done sid Panics]"
  | (listen_returns) err where "a = ListenAndServe_ends err" "server ss = Serving" "c' = c"
      "ss' = ss\<lparr>server := Server_cas\<rparr>" "evs = [] \<or> (\<exists>m. evs = [Log m])"
  | (server_won) "a = Server" "server ss = Server_cas" "closing c = 0" "c' = c\<lparr>closing := 1\<rparr>"
      "ss' = ss\<lparr>server := Server_close\<rparr>" "evs = [Cas_won sid]"
  | (server_lost) "a = Server" "server ss = Server_cas" "closing c \<noteq> 0" "c' = c"
      "ss' = ss\<lparr>server := Server_done\<rparr>" "evs = [Cas_lost sid]"
  | (server_close) "a = Server" "server ss = Server_close" "quit ss = Open" "c' = c"
      "ss' = ss\<lparr>quit := Closed, server := Server_done\<rparr>" "evs = [Quit_closed sid]"
  | (server_double_close) "a = Server" "server ss = Server_close" "quit ss = Closed" "c' = c"
      "ss' = ss\<lparr>server := Server_crashed\<rparr>" "evs = [Panic sid ''close of closed channel'']"
  | (signal) sg where "a = Deliver sg" "handler ss = Receiving" "c' = c"
      "ss' = ss\<lparr>handler := Check_interrupted\<rparr>"
      "evs = [Log (''System call: '' @ signal_String sg)]"
  | (seen) "a = Handler" "handler ss = Check_interrupted" "interrupted c" "c' = c"
      "ss' = ss\<lparr>handler := Receiving\<rparr>" "evs = []"
  | (unseen) "a = Handler" "handler ss = Check_interrupted" "\<not> interrupted c" "c' = c"
      "ss' = ss\<lparr>handler := Set_interrupted\<rparr>" "evs = []"
  | (set_flag) "a = Handler" "handler ss = Set_interrupted" "c' = c\<lparr>interrupted := True\<rparr>"
      "ss' = ss\<lparr>handler := Load_closing\<rparr>" "evs = []"
  | (closed) "a = Handler" "handler ss = Load_closing" "isClosed c" "c' = c"
      "ss' = ss\<lparr>handler := Receiving\<rparr>" "evs = []"
  | (opened) "a = Handler" "handler ss = Load_closing" "\<not> isClosed c" "c' = c"
      "ss' = ss\<lparr>handler := Handler_cas\<rparr>" "evs = []"
  | (handler_won) "a = Handler" "handler ss = Handler_cas" "closing c = 0"
      "c' = c\<lparr>closing := 1\<rparr>" "ss' = ss\<lparr>handler := Handler_close\<rparr>" "evs = [Cas_won sid]"
  | (handler_lost) "a = Handler" "handler ss = Handler_cas" "closing c \<noteq> 0" "c' = c"
      "ss' = ss\<lparr>handler := Receiving\<rparr>" "evs = [Cas_lost sid]"
  | (handler_close) "a = Handler" "handler ss = Handler_close" "quit ss = Open" "c' = c"
      "ss' = ss\<lparr>quit := Closed, handler := Receiving\<rparr>" "evs = [Quit_closed sid]"
  | (handler_double_close) "a = Handler" "handler ss = Handler_close" "quit ss = Closed"
      "c' = c" "ss' = ss\<lparr>handler := Handler_crashed\<rparr>"
      "evs = [Panic sid ''close of closed channel'']"
proof (cases a)
  case Main
  with assms have "Serve_next sid c ss = Some (c', ss', evs)" by simp
  then show ?thesis
    using Main
    apply (cases rule: Serve_next_cases)
    subgoal by (rule that(1)) (assumption | simp)+
    subgoal by (rule that(2)) (assumption | simp)+
    subgoal by (rule that(3)) (assumption | simp)+
    subgoal by (rule that(4)) (assumption | simp)+
    subgoal by (rule that(5)) (assumption | simp)+
    subgoal by (rule that(6)) (assumption | simp)+
    subgoal by (rule that(7)) (assumption | simp)+
    subgoal by (rule that(8)) (assumption | simp)+
    subgoal by (rule that(9)) (assumption | simp)+
    subgoal by (rule that(10)) (assumption | simp)+
    subgoal by (rule that(11)) (assumption | simp)+
    subgoal by (rule that(12)) (assumption | simp)+
    done
next
  case Callback_panics
  with assms have "Routine_panics sid c ss = Some (c', ss', evs)" by simp
  then show ?thesis
    using Callback_panics
    apply (cases rule: Routine_panics_cases)
    subgoal by (rule that(13)) (assumption | simp)+
    done
next
  case (Shutdown_ends out)
  with assms have "Shutdown_returns out sid c ss = Some (c', ss', evs)" by simp
  then show ?thesis
    using Shutdown_ends
    apply (cases rule: Shutdown_returns_cases)
    subgoal by (rule that(14)) (assumption | simp)+
    subgoal by (rule that(15)) (assumption | simp)+
    subgoal by (rule that(16)) (assumption | simp)+
    done
next
  case (ListenAndServe_ends err)
  with assms have "ListenAndServe_returns err sid c ss = Some (c', ss', evs)" by simp
  then show ?thesis
    using ListenAndServe_ends
    apply (cases rule: ListenAndServe_returns_cases)
    subgoal by (rule that(17)) (assumption | simp)+
    done
next
  case Server
  with assms have "Server_next sid c ss = Some (c', ss', evs)" by simp
  then show ?thesis
    using Server
    apply (cases rule: Server_next_cases)
    subgoal by (rule that(18)) (assumption | simp)+
    subgoal by (rule that(19)) (assumption | simp)+
    subgoal by (rule that(20)) (assumption | simp)+
    subgoal by (rule that(21)) (assumption | simp)+
    done
next
  case (Deliver sg)
  with assms have "Signal sg sid c ss = Some (c', ss', evs)" by simp
  then show ?thesis
    using Deliver
    apply (cases rule: Signal_cases)
    subgoal by (rule that(22)) (assumption | simp)+
    done
next
  case Handler
  with assms have "handleSignal_next sid c ss = Some (c', ss', evs)" by simp
  then show ?thesis
    using Handler
    apply (cases rule: handleSignal_next_cases)
    subgoal by (rule that(23)) (assumption | simp)+
    subgoal by (rule that(24)) (assumption | simp)+
    subgoal by (rule that(25)) (assumption | simp)+
    subgoal by (rule that(26)) (assumption | simp)+
    subgoal by (rule that(27)) (assumption | simp)+
    subgoal by (rule that(28)) (assumption | simp)+
    subgoal by (rule that(29)) (assumption | simp)+
    subgoal by (rule that(30)) (assumption | simp)+
    subgoal by (rule that(31)) (assumption | simp)+
    done
qed

section \<open>The gate\<close>

lemma goroutine_step_gate:
  assumes "goroutine_step a sid c ss = Some (c', ss', evs)"
  shows "gate_step c ss c' ss' evs"
  using assms
  by (cases rule: goroutine_step_cases)
     (auto simp: gate_step_def closers_def closed_quit_def)

lemma gate_ok_idle: "closing c = 0 \<Longrightarrow> gate_ok (idle c)"
  by (simp add: gate_ok_def idle_def pending_closes_def)

lemma finish_frame:
  assumes "finish k s = Some s'"
  shows "closing (inst s') = closing (inst s) \<and> interrupted (inst s') = interrupted (inst s) \<and>
         sessions s' = sessions s \<and>
         wins (events s') = wins (events s) \<and> losses (events s') = losses (events s) \<and>
         closes (events s') = closes (events s) \<and>
         double_closes (events s') = double_closes (events s)"
  using assms
  by (auto simp: finish_def Let_def
      split: if_splits call.splits prod.splits bool.splits)

lemma gate_ok_step:
  assumes "gate_ok s" and "step l s = Some s'"
  shows "gate_ok s'"
  using assms(2)
proof (cases rule: step_cases)
  case (serve t)
  with assms(1) show ?thesis
    by (simp add: gate_ok_def pending_closes_def closers_def closed_quit_def Serve_def)
next
  case (go sid a c ss evs)
  let ?old = "sessions s ! sid"
  from go(3) have g: "gate_step (inst s) ?old c ss evs" by (rule goroutine_step_gate)
  have pc: "pending_closes s' + closers ?old = pending_closes s + closers ss"
    using go(2,4) by (simp add: pending_closes_def sum_list_map_update)
  have cq: "sum_list (map closed_quit (sessions s')) + closed_quit ?old =
            sum_list (map closed_quit (sessions s)) + closed_quit ss"
    using go(2,4) by (simp add: sum_list_map_update)
  have le1: "closers ?old \<le> pending_closes s"
    using go(2) by (simp add: pending_closes_def nth_le_sum_list_map)
  have le2: "closed_quit ?old \<le> sum_list (map closed_quit (sessions s))"
    using go(2) by (simp add: nth_le_sum_list_map)
  have nodc: "double_closes evs = 0"
  proof (rule ccontr)
    assume "double_closes evs \<noteq> 0"
    with g have "quit ?old = Closed" "0 < closers ?old" by (auto simp: gate_step_def)
    then have "1 \<le> closed_quit ?old" "1 \<le> closers ?old" by (simp_all add: closed_quit_def)
    with le1 le2 have "2 \<le> closes (events s) + pending_closes s"
      using assms(1) by (simp add: gate_ok_def)
    with assms(1) show False by (auto simp: gate_ok_def split: if_splits)
  qed
  have ev: "events s' = evs @ events s" and ins: "inst s' = c" using go(4) by simp_all
  show ?thesis
    unfolding gate_ok_def ev ins
    using assms(1) g pc cq le1 le2 nodc
    by (auto simp: gate_ok_def gate_step_def split: if_splits)
next
  case (begin_push w rt a)
  with assms(1) show ?thesis
    by (auto simp: gate_ok_def begin_push_def pending_closes_def)
next
  case (begin_pop w)
  with assms(1) show ?thesis
    by (auto simp: gate_ok_def begin_pop_def pending_closes_def)
next
  case (finish k)
  from finish_frame [OF finish(2)] assms(1) show ?thesis
    by (simp add: gate_ok_def pending_closes_def)
qed

lemma gate_ok_run: "closing c = 0 \<Longrightarrow> run ls (idle c) = Some s \<Longrightarrow> gate_ok s"
  using run_invariant [where P = gate_ok and s = "idle c" and ls = ls and s' = s]
  by (simp add: gate_ok_idle gate_ok_step)

section \<open>Sessions\<close>

lemma session_events_simps [simp]:
  "session_events sid [] = []"
  "session_events sid (a @ b) = session_events sid a @ session_events sid b"
  "session_events sid (e # t) =
     (if session_of e = Some sid then e # session_events sid t else session_events sid t)"
  by (simp_all add: session_events_def)

lemma goroutine_step_own_events:
  assumes "goroutine_step a sid c ss = Some (c', ss', evs)" and "sid' \<noteq> sid"
  shows "session_events sid' evs = []"
  using assms by (cases rule: goroutine_step_cases) auto

lemma sessions_ok_step:
  assumes init: "\<And>sid t. R sid (Serve t) []"
    and loc: "\<And>a sid c ss c' ss' evs t.
      goroutine_step a sid c ss = Some (c', ss', evs) \<Longrightarrow> R sid ss t \<Longrightarrow>
      R sid ss' (session_events sid evs @ t)"
    and ok: "sessions_ok R s" and st: "step l s = Some s'"
  shows "sessions_ok R s'"
  using st
proof (cases rule: step_cases)
  case (serve t)
  show ?thesis
    unfolding sessions_ok_def
  proof
    fix sid
    from ok have o: "if sid < length (sessions s)
        then R sid (sessions s ! sid) (session_events sid (events s))
        else session_events sid (events s) = []"
      by (simp add: sessions_ok_def)
    show "if sid < length (sessions s')
        then R sid (sessions s' ! sid) (session_events sid (events s'))
        else session_events sid (events s') = []"
      using o init [of sid t] serve(2)
      by (cases "sid < length (sessions s)"; cases "sid = length (sessions s)")
         (auto simp: nth_append)
  qed
next
  case (go i a c ss evs)
  show ?thesis
    unfolding sessions_ok_def
  proof
    fix sid
    from ok have o: "if sid < length (sessions s)
        then R sid (sessions s ! sid) (session_events sid (events s))
        else session_events sid (events s) = []"
      by (simp add: sessions_ok_def)
    show "if sid < length (sessions s')
        then R sid (sessions s' ! sid) (session_events sid (events s'))
        else session_events sid (events s') = []"
    proof (cases "sid = i")
      case True
      with o go(2) have "R i (sessions s ! i) (session_events i (events s))" by simp
      from loc [OF go(3) this] show ?thesis using True go(2,4) by simp
    next
      case False
      then have "session_events sid evs = []"
        using goroutine_step_own_events [OF go(3)] by simp
      with o False show ?thesis using go(2,4) by simp
    qed
  qed
next
  case (begin_push w rt a)
  with ok show ?thesis by (auto simp: sessions_ok_def begin_push_def)
next
  case (begin_pop w)
  with ok show ?thesis by (auto simp: sessions_ok_def begin_pop_def)
next
  case (finish k)
  then have "sessions s' = sessions s" "\<And>sid. session_events sid (events s') = session_events sid (events s)"
    by (auto simp: finish_def Let_def split: if_splits call.splits prod.splits bool.splits)
  with ok show ?thesis by (simp add: sessions_ok_def)
qed

lemma sessions_ok_run:
  assumes "\<And>sid t. R sid (Serve t) []"
    and "\<And>a sid c ss c' ss' evs t.
      goroutine_step a sid c ss = Some (c', ss', evs) \<Longrightarrow> R sid ss t \<Longrightarrow>
      R sid ss' (session_events sid evs @ t)"
    and "run ls (idle c0) = Some s"
  shows "sessions_ok R s"
proof (rule run_invariant [OF assms(3), where P = "sessions_ok R"])
  show "sessions_ok R (idle c0)" by (simp add: sessions_ok_def idle_def)
next
  fix l s s' assume "sessions_ok R s" "step l s = Some s'"
  then show "sessions_ok R s'" using assms(1,2) sessions_ok_step [of R s l s'] by blast
qed

lemma project_session_events [simp]:
  "popped sid w (session_events sid t) = popped sid w t"
  "invoked sid w (session_events sid t) = invoked sid w t"
  "shutdown_called sid (session_events sid t) = shutdown_called sid t"
  "shutdown_done sid (session_events sid t) = shutdown_done sid t"
  by (induction t) (auto split: event.splits)

lemma main_ok_Serve: "main_ok sid (Serve t) []"
  by (simp add: main_ok_def early_def Serve_def)

lemma main_ok_step:
  assumes "goroutine_step a sid c ss = Some (c', ss', evs)" and "main_ok sid ss t"
  shows "main_ok sid ss' (session_events sid evs @ t)"
  using assms
  by (cases rule: goroutine_step_cases)
     (auto simp: main_ok_def early_def split: which.splits main_pc.splits)

lemma ordered_split:
  assumes "ordered sid (later @ e # earlier)"
  shows "ordered sid (e # earlier)"
    and "e = Shutdown_called sid cx \<Longrightarrow> popped sid Pre later = [] \<and> invoked sid Pre later = []"
  using assms
proof (induction later)
  case Nil
  { case 1 then show ?case by simp }
  { case 2 then show ?case by simp }
next
  case (Cons x later)
  { case 1 with Cons show ?case by simp }
  { case 2 with Cons show ?case by (auto split: event.splits which.splits) }
qed

lemmas run_defs =
  idle_def step_def begin_push_def begin_pop_def finish_def isClosed_def push_def pop_def
  Serve_def Signal_def handleSignal_next_def Serve_next_def Server_next_def
  ListenAndServe_returns_def Shutdown_returns_def Routine_panics_def CompareAndSwapInt32_def
  Let_def

lemma interrupt_run_result:
  "run interrupt_run (idle registered) =
   Some \<lparr>inst = \<lparr>preRoutines = \<lparr>routines = []\<rparr>, postRoutines = \<lparr>routines = []\<rparr>,
                 closing = 1, interrupted = True\<rparr>,
         sessions = [\<lparr>quit = Closed, timeout = 5000000000, main = Done, defers = [],
                      panicking = False, server = Server_done, handler = Receiving\<rparr>],
         calls = [],
         events =
           [Invoked 0 Post cleanup3, Popped 0 Post cleanup3,
            Invoked 0 Post cleanup4, Popped 0 Post cleanup4, Cancelled 0,
            Log ''Shutdown failed: context deadline exceeded'',
            Shutdown_done 0 (Returns (Some DeadlineExceeded)), Cas_lost 0,
            Shutdown_called 0 (WithTimeout 5000000000),
            Invoked 0 Pre cleanup1, Popped 0 Pre cleanup1,
            Invoked 0 Pre cleanup2, Popped 0 Pre cleanup2, Quit_closed 0,
            Cas_won 0, Log ''System call: interrupt'']\<rparr>"
  by (simp add: interrupt_run_def registered_def run_defs cleanup1_def cleanup2_def cleanup3_def
      cleanup4_def)

text \<open>
  Claim C1 (ordering law). In every run of any number of \<^verbatim>\<open>Serve\<close> calls on an instance,
  under every schedule: when session \<open>sid\<close> calls \<^verbatim>\<open>Server.Shutdown\<close>, every routine its
  drain has popped from the pre-shutdown stack has been called and has returned
  (\<open>popped\<close> and \<open>invoked\<close> agree on the events before the call), and the session pops
  and calls no routine of the pre-shutdown stack afterwards; and every pop and every call
  of a routine of the post-shutdown stack by session \<open>sid\<close> comes after the end of that
  session's \<^verbatim>\<open>Shutdown\<close> call, whatever its outcome. (\<open>events s\<close> is most recent
  first: \<open>earlier\<close> is what happened before \<open>e\<close>, \<open>later\<close> what happened after.)
\<close>

theorem Serve_ordering:
  assumes "run ls (idle c) = Some s" and "events s = later @ e # earlier"
  shows "(e = Shutdown_called sid cx \<longrightarrow>
            popped sid Pre earlier = invoked sid Pre earlier \<and>
            popped sid Pre later = [] \<and> invoked sid Pre later = []) \<and>
         (e = Popped sid Post r \<or> e = Invoked sid Post r \<longrightarrow> shutdown_done sid earlier)"
proof -
  have ok: "sessions_ok main_ok s"
    using main_ok_Serve main_ok_step assms(1) by (rule sessions_ok_run)
  have ord: "session_of e = Some sid \<Longrightarrow>
      ordered sid (session_events sid later @ e # session_events sid earlier)"
  proof -
    assume e: "session_of e = Some sid"
    have "ordered sid (session_events sid (events s))"
      using ok by (cases "sid < length (sessions s)") (auto simp: sessions_ok_def main_ok_def split: if_splits)
    then show ?thesis using e by (simp add: assms(2))
  qed
  show ?thesis
  proof (intro conjI impI)
    assume e: "e = Shutdown_called sid cx"
    then have o: "ordered sid (session_events sid later @ e # session_events sid earlier)"
      by (intro ord) simp
    from ordered_split(1) [OF o] e show "popped sid Pre earlier = invoked sid Pre earlier"
      by simp
    from ordered_split(2) [OF o e] show "popped sid Pre later = []" "invoked sid Pre later = []"
      by simp_all
  next
    assume e: "e = Popped sid Post r \<or> e = Invoked sid Post r"
    then have o: "ordered sid (session_events sid later @ e # session_events sid earlier)"
      by (intro ord) auto
    from ordered_split(1) [OF o] e show "shutdown_done sid earlier"
      by auto
  qed
qed

theorem Serve_ordering_witness:
  "popped 0 Pre
     [Invoked 0 Pre cleanup1, Popped 0 Pre cleanup1, Invoked 0 Pre cleanup2,
      Popped 0 Pre cleanup2, Quit_closed 0, Cas_won 0, Log ''System call: interrupt''] =
   [cleanup1, cleanup2] \<and>
   invoked 0 Pre
     [Invoked 0 Pre cleanup1, Popped 0 Pre cleanup1, Invoked 0 Pre cleanup2,
      Popped 0 Pre cleanup2, Quit_closed 0, Cas_won 0, Log ''System call: interrupt''] =
   [cleanup1, cleanup2] \<and>
   invoked 0 Pre
     [Invoked 0 Post cleanup3, Popped 0 Post cleanup3,
      Invoked 0 Post cleanup4, Popped 0 Post cleanup4, Cancelled 0,
      Log ''Shutdown failed: context deadline exceeded'',
      Shutdown_done 0 (Returns (Some DeadlineExceeded)), Cas_lost 0] = [] \<and>
   shutdown_done 0
     [Shutdown_done 0 (Returns (Some DeadlineExceeded)), Cas_lost 0,
      Shutdown_called 0 (WithTimeout 5000000000),
      Invoked 0 Pre cleanup1, Popped 0 Pre cleanup1, Invoked 0 Pre cleanup2,
      Popped 0 Pre cleanup2, Quit_closed 0, Cas_won 0, Log ''System call: interrupt'']"
proof -
  let ?earlier = "[Invoked 0 Pre cleanup1, Popped 0 Pre cleanup1, Invoked 0 Pre cleanup2,
      Popped 0 Pre cleanup2, Quit_closed 0, Cas_won 0, Log ''System call: interrupt'']"
  let ?later = "[Invoked 0 Post cleanup3, Popped 0 Post cleanup3,
      Invoked 0 Post cleanup4, Popped 0 Post cleanup4, Cancelled 0,
      Log ''Shutdown failed: context deadline exceeded'',
      Shutdown_done 0 (Returns (Some DeadlineExceeded)), Cas_lost 0]"
  let ?s = "the (run interrupt_run (idle registered))"
  have r: "run interrupt_run (idle registered) = Some ?s"
    by (simp add: interrupt_run_result)
  have e1: "events ?s = ?later @ Shutdown_called 0 (WithTimeout 5000000000) # ?earlier"
    by (simp add: interrupt_run_result)
  have e2: "events ?s =
      [Invoked 0 Post cleanup3, Popped 0 Post cleanup3, Invoked 0 Post cleanup4] @
      Popped 0 Post cleanup4 #
      [Cancelled 0, Log ''Shutdown failed: context deadline exceeded''] @
      [Shutdown_done 0 (Returns (Some DeadlineExceeded)), Cas_lost 0,
       Shutdown_called 0 (WithTimeout 5000000000),
       Invoked 0 Pre cleanup1, Popped 0 Pre cleanup1, Invoked 0 Pre cleanup2,
       Popped 0 Pre cleanup2, Quit_closed 0, Cas_won 0, Log ''System call: interrupt'']"
    by (simp add: interrupt_run_result)
  show ?thesis
    using Serve_ordering [OF r e1, of 0 "WithTimeout 5000000000" cleanup4]
      Serve_ordering [OF r e2, of 0 Background cleanup4]
    by simp
qed

lemma waited_ok_step:
  assumes "goroutine_step a sid c ss = Some (c', ss', evs)" and "waited_ok sid ss t"
  shows "waited_ok sid ss' (session_events sid evs @ t)"
  using assms by (cases rule: goroutine_step_cases) (auto simp: waited_ok_def)

lemma waited_ok_run:
  assumes "run ls (idle c) = Some s" and "sid < length (sessions s)"
    and "main (sessions s ! sid) \<noteq> At_wait"
  shows "quit (sessions s ! sid) = Closed"
proof -
  have "sessions_ok waited_ok s"
    by (rule sessions_ok_run [OF _ _ assms(1)])
       (simp_all add: waited_ok_step, simp add: waited_ok_def Serve_def)
  with assms(2,3) show ?thesis by (auto simp: sessions_ok_def waited_ok_def split: if_splits)
qed

lemma past_wait_closing:
  assumes "closing c = 0" and "run ls (idle c) = Some s" and "sid < length (sessions s)"
    and "main (sessions s ! sid) \<noteq> At_wait"
  shows "closing (inst s) = 1"
proof -
  have g: "gate_ok s" using assms(1,2) by (rule gate_ok_run)
  have "quit (sessions s ! sid) = Closed" using assms(2-4) by (rule waited_ok_run)
  then have "1 \<le> closed_quit (sessions s ! sid)" by (simp add: closed_quit_def)
  also have "\<dots> \<le> sum_list (map closed_quit (sessions s))"
    using assms(3) by (rule nth_le_sum_list_map)
  finally show ?thesis using g by (auto simp: gate_ok_def split: if_splits)
qed




text \<open>
  Claim C10. From any state in which \<^verbatim>\<open>isClosed\<close> holds, whatever the goroutines and
  callers do afterwards: the flag keeps its value, so \<^verbatim>\<open>isClosed\<close> holds for ever; no
  compare-and-swap from 0 to 1 succeeds again; and every later public push or pop is
  rejected and leaves the instance as it is.
\<close>

theorem closing_never_reset:
  assumes "isClosed (inst s)" and "run ls s = Some s'"
  shows "isClosed (inst s') \<and> closing (inst s') = closing (inst s) \<and>
         wins (events s') = wins (events s) \<and>
         snd (CompareAndSwapInt32 (inst s') 0 1) = False \<and>
         cleanupPush (inst s') w rt a = (inst s', [''Push failed: closed'']) \<and>
         cleanupPop (inst s') w = ((None, NilV, False), inst s', [''Pop failed: closed''])"
proof -
  let ?P = "\<lambda>x. closing (inst x) = closing (inst s) \<and> wins (events x) = wins (events s)"
  have "?P s'"
  proof (rule run_invariant [OF assms(2), where P = ?P])
    show "?P s" by simp
  next
    fix l x x' assume p: "?P x" and st: "step l x = Some x'"
    from assms(1) p have nz: "closing (inst x) \<noteq> 0" by (simp add: isClosed_def)
    from st show "?P x'"
    proof (cases rule: step_cases)
      case (go sid a c ss evs)
      from goroutine_step_gate [OF go(3)] nz p go(4) show ?thesis
        by (auto simp: gate_step_def split: if_splits)
    next
      case (finish k)
      from finish_frame [OF finish(2)] p show ?thesis by simp
    qed (use p in \<open>auto simp: begin_push_def begin_pop_def\<close>)
  qed
  with assms(1) show ?thesis
    by (simp add: isClosed_def CompareAndSwapInt32_def cleanupPush_def cleanupPop_def)
qed

lemma late_run_result:
  "run late_run (idle (registered\<lparr>closing := 1\<rparr>)) =
   Some \<lparr>inst = registered\<lparr>closing := 1, interrupted := True\<rparr>,
         sessions = [\<lparr>quit = Open, timeout = 0, main = At_wait, defers = [],
                      panicking = False, server = Server_done, handler = Receiving\<rparr>],
         calls = [],
         events =
           [Log ''System call: terminated'', Cas_lost 0, Pop_result (None, NilV, False),
            Log ''Pop failed: closed'', Log ''Push failed: closed'']\<rparr>"
  by (simp add: late_run_def registered_def run_defs)

theorem closing_never_reset_witness:
  "isClosed (inst (idle (registered\<lparr>closing := 1\<rparr>))) \<and>
   isClosed (inst (the (run late_run (idle (registered\<lparr>closing := 1\<rparr>))))) \<and>
   closing (inst (the (run late_run (idle (registered\<lparr>closing := 1\<rparr>))))) = 1 \<and>
   wins (events (the (run late_run (idle (registered\<lparr>closing := 1\<rparr>))))) = 0 \<and>
   losses (events (the (run late_run (idle (registered\<lparr>closing := 1\<rparr>))))) = 1 \<and>
   preRoutines (inst (the (run late_run (idle (registered\<lparr>closing := 1\<rparr>))))) =
     preRoutines registered"
proof -
  have c: "isClosed (inst (idle (registered\<lparr>closing := 1\<rparr>)))"
    by (simp add: idle_def isClosed_def)
  have r: "run late_run (idle (registered\<lparr>closing := 1\<rparr>)) =
      Some (the (run late_run (idle (registered\<lparr>closing := 1\<rparr>))))"
    by (simp add: late_run_result)
  show ?thesis
    using c closing_never_reset [OF c r, of Pre "Some 5" "IntV 6"]
    by (simp add: late_run_result)
qed

section \<open>The context of the Shutdown call\<close>

lemma goroutine_step_timeout:
  assumes "goroutine_step a sid c ss = Some (c', ss', evs)"
  shows "timeout ss' = timeout ss"
  using assms by (cases rule: goroutine_step_cases) auto

lemma timeouts_simps [simp]:
  "timeouts [] = []"
  "timeouts (Call_Serve t # ls) = t # timeouts ls"
  "timeouts (Go sid a # ls) = timeouts ls"
  "timeouts (Begin_push w rt x # ls) = timeouts ls"
  "timeouts (Begin_pop w # ls) = timeouts ls"
  "timeouts (Finish k # ls) = timeouts ls"
  by (simp_all add: timeouts_def List.map_filter_def)

lemma step_timeouts:
  assumes "step l s = Some s'"
  shows "map timeout (sessions s') = map timeout (sessions s) @ timeouts [l]"
  using assms
proof (cases rule: step_cases)
  case (go sid a c ss evs)
  from goroutine_step_timeout [OF go(3)] go(1,2,4) show ?thesis
    by (simp add: map_update list_update_same_conv)
next
  case (finish k)
  then show ?thesis
    by (auto simp: finish_def Let_def split: if_splits call.splits prod.splits bool.splits)
qed (simp_all add: Serve_def begin_push_def begin_pop_def)

lemma run_timeouts:
  "run ls s = Some s' \<Longrightarrow> map timeout (sessions s') = map timeout (sessions s) @ timeouts ls"
proof (induction ls arbitrary: s)
  case Nil
  then show ?case by simp
next
  case (Cons l ls)
  then obtain s1 where s1: "step l s = Some s1" "run ls s1 = Some s'"
    by (auto split: option.splits)
  have "timeouts (l # ls) = timeouts [l] @ timeouts ls"
    by (cases l) simp_all
  with Cons.IH [OF s1(2)] step_timeouts [OF s1(1)] show ?case by simp
qed

lemma Shutdown_called_session_events [simp]:
  "Shutdown_called sid cx \<in> set (session_events sid t) \<longleftrightarrow> Shutdown_called sid cx \<in> set t"
  by (auto simp: session_events_def)

lemma context_for_simps:
  "0 < sint t \<Longrightarrow> context_for t = WithTimeout t"
  "\<not> 0 < sint t \<Longrightarrow> context_for t = Background"
  by (simp_all add: context_for_def)

lemma ctx_ok_step:
  assumes "goroutine_step a sid c ss = Some (c', ss', evs)" and "ctx_ok sid ss t"
  shows "ctx_ok sid ss' (session_events sid evs @ t)"
  using assms
  by (cases rule: goroutine_step_cases)
     (auto simp: ctx_ok_def context_for_simps split: which.splits)

lemma ctx_ok_called:
  assumes "ctx_ok sid ss t" and "Shutdown_called sid cx \<in> set t"
  shows "cx = context_for (timeout ss)"
proof -
  from assms(1) have "\<forall>e\<in>set t. case e of
      Shutdown_called i cx \<Rightarrow> i = sid \<longrightarrow> cx = context_for (timeout ss) | _ \<Rightarrow> True"
    by (simp add: ctx_ok_def list_all_iff)
  from bspec [OF this assms(2)] show ?thesis by simp
qed

text \<open>
  Claim C6. Under every schedule, the context that the \<open>sid\<close>-th \<^verbatim>\<open>Serve\<close> call of a run
  hands to \<^verbatim>\<open>Server.Shutdown\<close> is \<^verbatim>\<open>context.WithTimeout(context.Background(), timeout)\<close>
  with the \<^verbatim>\<open>timeout\<close> of that call when \<^verbatim>\<open>timeout > 0\<close> (as a signed 64-bit
  \<^verbatim>\<open>time.Duration\<close>), and \<^verbatim>\<open>context.Background()\<close>, which has no deadline, when the
  timeout is zero or negative.
\<close>

theorem Shutdown_context:
  assumes "run ls (idle c) = Some s" and "Shutdown_called sid cx \<in> set (events s)"
  shows "sid < length (timeouts ls) \<and>
         cx = (if 0 < sint (timeouts ls ! sid) then WithTimeout (timeouts ls ! sid)
               else Background)"
proof -
  have ok: "sessions_ok ctx_ok s"
    by (rule sessions_ok_run [OF _ _ assms(1)])
       (simp_all add: ctx_ok_step, simp add: ctx_ok_def Serve_def)
  have t: "map timeout (sessions s) = timeouts ls"
    using run_timeouts [OF assms(1)] by (simp add: idle_def)
  have len: "sid < length (sessions s)"
  proof (rule ccontr)
    assume "\<not> sid < length (sessions s)"
    with ok have "session_events sid (events s) = []" by (auto simp: sessions_ok_def split: if_splits)
    moreover have "Shutdown_called sid cx \<in> set (session_events sid (events s))"
      using assms(2) by simp
    ultimately show False by simp
  qed
  with ok have "ctx_ok sid (sessions s ! sid) (session_events sid (events s))"
    by (auto simp: sessions_ok_def split: if_splits)
  then have "cx = context_for (timeout (sessions s ! sid))"
    by (rule ctx_ok_called) (use assms(2) in simp)
  then have "cx = (if 0 < sint (timeout (sessions s ! sid))
      then WithTimeout (timeout (sessions s ! sid)) else Background)"
    by (simp add: context_for_def)
  moreover have "timeouts ls ! sid = timeout (sessions s ! sid)" "length (timeouts ls) = length (sessions s)"
    using len t [symmetric] by simp_all
  ultimately show ?thesis using len by simp
qed

lemma failed_start_run_result:
  "run (failed_start_run t) (idle defaultCleanupHTTP) =
   Some \<lparr>inst = defaultCleanupHTTP\<lparr>closing := 1\<rparr>,
         sessions = [\<lparr>quit = Closed, timeout = t, main = In_shutdown,
                      defers = (if 0 < sint t then [Deferred_cancel, Deferred_postCleanup]
                                else [Deferred_postCleanup]),
                      panicking = False, server = Server_done, handler = Receiving\<rparr>],
         calls = [],
         events = [Shutdown_called 0 (if 0 < sint t then WithTimeout t else Background),
                   Quit_closed 0, Cas_won 0, Log ''ListenAndServe failed: address in use'']\<rparr>"
  by (simp add: failed_start_run_def defaultCleanupHTTP_def run_defs zero_cleanupRoutine_def)

theorem Shutdown_context_witness:
  "Shutdown_called 0 (WithTimeout 5000000000)
     \<in> set (events (the (run interrupt_run (idle registered)))) \<and>
   Shutdown_called 0 Background
     \<in> set (events (the (run (failed_start_run 0) (idle defaultCleanupHTTP)))) \<and>
   Shutdown_called 0 Background
     \<in> set (events (the (run (failed_start_run (- 1)) (idle defaultCleanupHTTP)))) \<and>
   timeouts interrupt_run = [5000000000] \<and> timeouts (failed_start_run 0) = [0] \<and>
   timeouts (failed_start_run (- 1)) = [- 1]"
proof -
  have r1: "run interrupt_run (idle registered) = Some (the (run interrupt_run (idle registered)))"
    by (simp add: interrupt_run_result)
  have e1: "Shutdown_called 0 (WithTimeout 5000000000)
      \<in> set (events (the (run interrupt_run (idle registered))))"
    by (simp add: interrupt_run_result)
  have r2: "run (failed_start_run 0) (idle defaultCleanupHTTP) =
      Some (the (run (failed_start_run 0) (idle defaultCleanupHTTP)))"
    by (simp only: failed_start_run_result option.sel)
  have e2: "Shutdown_called 0 Background
      \<in> set (events (the (run (failed_start_run 0) (idle defaultCleanupHTTP))))"
    by (simp add: failed_start_run_result)
  have r3: "run (failed_start_run (- 1)) (idle defaultCleanupHTTP) =
      Some (the (run (failed_start_run (- 1)) (idle defaultCleanupHTTP)))"
    by (simp only: failed_start_run_result option.sel)
  have e3: "Shutdown_called 0 Background
      \<in> set (events (the (run (failed_start_run (- 1)) (idle defaultCleanupHTTP))))"
    by (simp add: failed_start_run_result)
  have t: "timeouts interrupt_run = [5000000000]" "timeouts (failed_start_run 0) = [0]"
    "timeouts (failed_start_run (- 1)) = [- 1]"
    by (simp_all add: interrupt_run_def failed_start_run_def)
  show ?thesis
    using e1 e2 e3 t Shutdown_context [OF r1 e1] Shutdown_context [OF r2 e2]
      Shutdown_context [OF r3 e3]
    by blast
qed

section \<open>The states of the gate\<close>

lemma main_step_closing:
  assumes "goroutine_step a sid c ss = Some (c', ss', evs)"
    and "a = Main \<or> a = Callback_panics \<or> (\<exists>out. a = Shutdown_ends out)"
  shows "closing c' = closing c"
  using assms by (cases rule: goroutine_step_cases) auto

lemma late_push_run_result: "run late_push_run (idle defaultCleanupHTTP) = Some leftover"
  by (simp add: late_push_run_def leftover_def defaultCleanupHTTP_def cleanup1_def run_defs
      zero_cleanupRoutine_def)

text \<open>
  Claim C7, as the code has it. The flag \<^verbatim>\<open>closing\<close> of an instance that starts at 0 has
  two states, not three: it is 0 (open) or 1 (closing, which \<^verbatim>\<open>isClosed\<close> reports as
  closed); it goes from 0 to 1 at most once, by a compare-and-swap that wins (the number
  of wins is 0 while the flag is 0 and 1 once it is 1); as soon as the calling goroutine
  of any session is past its wait the flag is 1; and no step of the calling goroutine
  (the rest of \<^verbatim>\<open>Serve\<close>, a routine that panics, the end of \<^verbatim>\<open>Shutdown\<close>) writes the flag,
  so it is still 1 when both cleanup phases and the bounded shutdown are complete and
  \<^verbatim>\<open>Serve\<close> has returned. There is no transition to a third state.
\<close>

theorem gate_two_states:
  assumes "closing c = 0" and "run ls (idle c) = Some s"
  shows "(closing (inst s) = 0 \<or> closing (inst s) = 1) \<and>
         wins (events s) = (if closing (inst s) = 0 then 0 else 1) \<and>
         (\<forall>sid. sid < length (sessions s) \<and> main (sessions s ! sid) \<noteq> At_wait \<longrightarrow>
                closing (inst s) = 1) \<and>
         (\<forall>sid a s'. (a = Main \<or> a = Callback_panics \<or> (\<exists>out. a = Shutdown_ends out)) \<and>
                     step (Go sid a) s = Some s' \<longrightarrow> closing (inst s') = closing (inst s))"
proof (intro conjI allI impI)
  have g: "gate_ok s" using assms by (rule gate_ok_run)
  from g show "closing (inst s) = 0 \<or> closing (inst s) = 1" by (simp add: gate_ok_def)
  from g show "wins (events s) = (if closing (inst s) = 0 then 0 else 1)"
    by (simp add: gate_ok_def)
next
  fix sid assume "sid < length (sessions s) \<and> main (sessions s ! sid) \<noteq> At_wait"
  then show "closing (inst s) = 1"
    using past_wait_closing [OF assms] by blast
next
  fix sid a s'
  assume h: "(a = Main \<or> a = Callback_panics \<or> (\<exists>out. a = Shutdown_ends out)) \<and>
             step (Go sid a) s = Some s'"
  then have "step (Go sid a) s = Some s'" by simp
  then show "closing (inst s') = closing (inst s)"
  proof (cases rule: step_cases)
    case (go i b c' ss evs)
    then have "b = a" by simp
    with main_step_closing [OF go(3)] h go(4) show ?thesis by simp
  qed simp_all
qed

theorem gate_two_states_witness:
  "closing registered = 0 \<and>
   closing (inst (the (run interrupt_run (idle registered)))) = 1 \<and>
   wins (events (the (run interrupt_run (idle registered)))) = 1 \<and>
   main (sessions (the (run interrupt_run (idle registered))) ! 0) = Done"
proof -
  have c: "closing registered = 0" by (simp add: registered_def)
  have r: "run interrupt_run (idle registered) = Some (the (run interrupt_run (idle registered)))"
    by (simp add: interrupt_run_result)
  show ?thesis
    using c gate_two_states [OF c r] by (simp add: interrupt_run_result)
qed

text \<open>
  Claim C7 as stated fails: in the run of the interrupted \<^verbatim>\<open>Serve\<close>, the flag is 1 when the
  calling goroutine leaves its wait and begins the pre-shutdown cleanup, and it is the
  same 1 when both cleanup phases and the shutdown are complete and \<^verbatim>\<open>Serve\<close> has
  returned: the waiter has made no transition from a closing to a closed state.
\<close>

theorem no_closed_state:
  "main_after (take 8 interrupt_run) registered 0 = Some (Cleanup_pop Pre) \<and>
   flag_after (take 8 interrupt_run) registered = Some 1 \<and>
   main_after interrupt_run registered 0 = Some Done \<and>
   flag_after interrupt_run registered = Some 1"
proof -
  have "run (take 8 interrupt_run) (idle registered) =
        Some \<lparr>inst = registered\<lparr>closing := 1, interrupted := True\<rparr>,
              sessions = [\<lparr>quit = Closed, timeout = 5000000000, main = Cleanup_pop Pre,
                           defers = [], panicking = False, server = Serving,
                           handler = Receiving\<rparr>],
              calls = [],
              events = [Quit_closed 0, Cas_won 0, Log ''System call: interrupt'']\<rparr>"
    by (simp add: interrupt_run_def registered_def run_defs)
  then show ?thesis
    by (simp add: main_after_def flag_after_def interrupt_run_result)
qed

end
